theory Spec2Isabelle
  imports Complex_Main "HOL-Library.Multiset"
begin

section \<open>The load generator of the feature-store example (loadgen/main.py)\<close>

text \<open>
  The program has two threads that share one \<open>queue.PriorityQueue\<close>: the main thread
  runs \<open>create_lead\<close> in a loop and puts \<open>ConversionEvent\<close>s on the queue, and the
  thread started on \<open>convert\<close> takes them off again and writes the conversion to the
  database once the event is due.

  Conventions of the embedding:
  \<^item> Python's \<open>float\<close> timestamps (\<open>time.time()\<close>, \<open>converted_at\<close>) are the \<open>real\<close>
    numbers they stand for. The sum and the product that compute a fire timestamp in
    \<open>create_lead\<close> are rounded to double precision; the comparison of timestamps and
    the subtraction in \<open>convert\<close> are taken as exact.
  \<^item> Every value the program obtains from outside (the clock, the random generator, the
    row the database returns) is an explicit input of the function that asks for it.
  \<^item> The database connection and the Kafka producer are logs of what was sent to them.
  \<^item> An exception is a value of type \<open>error\<close>.
\<close>

subsection \<open>Data classes\<close>

text \<open>The field \<open>id\<close> of \<open>Lead\<close> is called \<open>lead_id\<close> here (\<open>id\<close> is the identity of HOL).\<close>

record Lead =
  email :: string
  utm_medium :: string
  utm_source :: string
  lead_id :: "int option"

record ConversionEvent =
  converted_at :: real
  lead :: Lead
  conversion_amount :: int

text \<open>\<open>ConversionEvent.__lt__\<close>, the comparison the priority queue uses.\<close>

definition ConversionEvent_lt :: "ConversionEvent \<Rightarrow> ConversionEvent \<Rightarrow> bool" where
  "ConversionEvent_lt self other = (converted_at self < converted_at other)"

datatype error = IndexError | RuntimeError | AssertionError

subsection \<open>The priority queue: \<open>heapq\<close> on a list\<close>

text \<open>
  \<open>queue.PriorityQueue\<close> keeps its items in a Python list that \<open>heapq.heappush\<close> and
  \<open>heapq.heappop\<close> maintain as a binary heap. The functions below follow
  \<open>heapq.py\<close> of CPython line by line; the only comparison they use is \<open>__lt__\<close>.
  The loops of \<open>_siftdown\<close> and \<open>_siftup\<close> are the recursive functions
  \<open>siftdown_loop\<close> and \<open>siftup_loop\<close>; the local variable \<open>newitem\<close> is an argument.
  \<open>heappush\<close> and \<open>heappop\<close> call them with positions inside the list only, so no
  index is out of range.
\<close>

type_synonym heap = "ConversionEvent list"

function siftdown_loop :: "heap \<Rightarrow> nat \<Rightarrow> nat \<Rightarrow> ConversionEvent \<Rightarrow> heap" where
  "siftdown_loop heap startpos pos newitem =
     (if pos > startpos then
        (let parentpos = (pos - 1) div 2;
             parent = heap ! parentpos
         in if ConversionEvent_lt newitem parent
            then siftdown_loop (heap[pos := parent]) startpos parentpos newitem
            else heap[pos := newitem])
      else heap[pos := newitem])"
  by pat_completeness auto
termination
  by (relation "measure (\<lambda>(heap, startpos, pos, newitem). pos)") auto

declare siftdown_loop.simps [simp del]

definition siftdown :: "heap \<Rightarrow> nat \<Rightarrow> nat \<Rightarrow> heap" where
  "siftdown heap startpos pos = siftdown_loop heap startpos pos (heap ! pos)"

text \<open>The loop of \<open>_siftup\<close> returns the list and the position of the leaf it stopped at.\<close>

function siftup_loop :: "heap \<Rightarrow> nat \<Rightarrow> nat \<Rightarrow> heap \<times> nat" where
  "siftup_loop heap endpos pos =
     (let childpos = 2 * pos + 1
      in if childpos < endpos then
           (let rightpos = childpos + 1;
                childpos' = (if rightpos < endpos \<and>
                                \<not> ConversionEvent_lt (heap ! childpos) (heap ! rightpos)
                             then rightpos else childpos)
            in siftup_loop (heap[pos := heap ! childpos']) endpos childpos')
         else (heap, pos))"
  by pat_completeness auto
termination
  by (relation "measure (\<lambda>(heap, endpos, pos). endpos - pos)") (auto simp: Let_def)

declare siftup_loop.simps [simp del]

definition siftup :: "heap \<Rightarrow> nat \<Rightarrow> heap" where
  "siftup heap pos =
     (let endpos = length heap;
          startpos = pos;
          newitem = heap ! pos;
          (heap', pos') = siftup_loop heap endpos pos
      in siftdown (heap'[pos' := newitem]) startpos pos')"

definition heappush :: "heap \<Rightarrow> ConversionEvent \<Rightarrow> heap" where
  "heappush heap item = siftdown (heap @ [item]) 0 (length (heap @ [item]) - 1)"

text \<open>\<open>heap.pop()\<close> raises \<open>IndexError\<close> on the empty list.\<close>

definition heappop :: "heap \<Rightarrow> error + ConversionEvent \<times> heap" where
  "heappop heap =
     (if heap = [] then Inl IndexError
      else let lastelt = last heap;
               heap1 = butlast heap
           in if heap1 \<noteq> []
              then let returnitem = heap1 ! 0
                   in Inr (returnitem, siftup (heap1[0 := lastelt]) 0)
              else Inr (lastelt, heap1))"

text \<open>
  \<open>PriorityQueue.put\<close> and \<open>PriorityQueue.get\<close>, each run under the queue's mutex. The
  queue is created with \<open>maxsize = 0\<close>, so \<open>put\<close> never waits. \<open>get\<close> waits while the
  queue is empty: \<open>None\<close> stands for a call that has not returned.
\<close>

definition PriorityQueue_put :: "heap \<Rightarrow> ConversionEvent \<Rightarrow> heap" where
  "PriorityQueue_put queue item = heappush queue item"

definition PriorityQueue_get :: "heap \<Rightarrow> (error + ConversionEvent \<times> heap) option" where
  "PriorityQueue_get queue = (if length queue = 0 then None else Some (heappop queue))"

subsection \<open>The random generator\<close>

text \<open>
  The module \<open>random\<close> is outside the repository. Each call is modelled from its
  documented contract, as a function of the raw number the generator draws for it:
  \<open>random.random()\<close> is a multiple of \<open>2\<^sup>-\<^sup>5\<^sup>3\<close> in \<open>[0, 1)\<close>, \<open>random.randint(a, b)\<close>
  is an integer \<open>N\<close> with \<open>a \<le> N \<le> b\<close>, and \<open>random.choice(seq)\<close> is an element of a
  non-empty sequence. How likely each value is (the distribution) is not modelled.
\<close>

definition random_float :: "nat \<Rightarrow> real" where
  "random_float n = real (n mod 2 ^ 53) / 2 ^ 53"

definition randint :: "int \<Rightarrow> int \<Rightarrow> nat \<Rightarrow> int" where
  "randint a b n = a + int n mod (b - a + 1)"

definition choice :: "'a list \<Rightarrow> nat \<Rightarrow> 'a" where
  "choice seq n = seq ! (n mod length seq)"

subsection \<open>Double-precision arithmetic\<close>

text \<open>
  A Python \<open>float\<close> is an IEEE 754 double. \<open>round_double\<close> is rounding to the nearest
  double, ties to the even significand: the significand has 53 bits, the exponent of a
  normal number is at least \<open>-1022\<close>, and below that the spacing stays \<open>2\<^sup>-\<^sup>1\<^sup>0\<^sup>7\<^sup>4\<close>.
  \<open>float_add\<close> and \<open>float_mul\<close> are \<open>+\<close> and \<open>*\<close> on floats, each rounded once.
  Results of magnitude \<open>2\<^sup>1\<^sup>0\<^sup>2\<^sup>4\<close> or more, which are infinite in Python, are not
  modelled.
\<close>

definition round_half_even :: "real \<Rightarrow> int" where
  "round_half_even x =
     (let f = \<lfloor>x\<rfloor>; d = x - of_int f
      in if d < 1 / 2 then f else if d > 1 / 2 then f + 1 else if even f then f else f + 1)"

definition expo :: "real \<Rightarrow> int" where
  "expo x = max \<lfloor>log 2 \<bar>x\<bar>\<rfloor> (- 1022)"

definition ulp :: "real \<Rightarrow> real" where
  "ulp x = 2 powr (of_int (expo x) - 52)"

definition round_double :: "real \<Rightarrow> real" where
  "round_double x = (if x = 0 then 0 else of_int (round_half_even (x / ulp x)) * ulp x)"

definition float_add :: "real \<Rightarrow> real \<Rightarrow> real" where
  "float_add x y = round_double (x + y)"

definition float_mul :: "real \<Rightarrow> real \<Rightarrow> real" where
  "float_mul x y = round_double (x * y)"

subsection \<open>The collaborators: database connection and Kafka producer\<close>

text \<open>
  A connection is the list of the statements executed on it, a producer the list of the
  records sent to the topic \<open>conversion_predictions\<close>. A statement keeps the values the
  f-string puts into the SQL text; \<open>lead.id\<close> is an \<open>Optional[int]\<close> there.
\<close>

datatype sql =
    Insert_lead string string string
  | Update_conversion "int option" int
  | Insert_coupon "int option" int

type_synonym connection = "sql list"

record prediction =
  p_lead_id :: "int option"
  p_experiment_bucket :: string
  p_score :: real
  p_label :: int
  p_predicted_at :: real

type_synonym KafkaProducer = "prediction list"

definition log_conversion :: "connection \<Rightarrow> Lead \<Rightarrow> int \<Rightarrow> connection" where
  "log_conversion conn ld amount = conn @ [Update_conversion (lead_id ld) amount]"

definition log_coupon :: "connection \<Rightarrow> Lead \<Rightarrow> int \<Rightarrow> connection" where
  "log_coupon conn ld amount = conn @ [Insert_coupon (lead_id ld) amount]"

text \<open>The last argument is the clock value \<open>dt.datetime.now\<close> returns.\<close>

definition log_prediction ::
  "Lead \<Rightarrow> real \<Rightarrow> int \<Rightarrow> KafkaProducer \<Rightarrow> string \<Rightarrow> real \<Rightarrow> KafkaProducer" where
  "log_prediction ld score label producer bucket predicted_at =
     producer @ [\<lparr>p_lead_id = lead_id ld, p_experiment_bucket = bucket, p_score = score,
                  p_label = label, p_predicted_at = predicted_at\<rparr>]"

subsection \<open>The producer: \<open>rand_lead\<close> and \<open>create_lead\<close>\<close>

text \<open>
  What one call of \<open>create_lead\<close> obtains from outside, in the order of the source: the
  random letters and choices of \<open>rand_lead\<close>, the result of \<open>cur.fetchone()\<close> (\<open>None\<close>
  when there is no row, otherwise the first column of the row, which may be NULL), the
  raw draw of the score, the clock of the prediction record, the raw draw of the coupon
  amount, of the two coin flips, the clock at the conversion, and the raw draws of the
  delay and of the conversion amount. A draw the call does not reach is not looked at.
\<close>

record lead_inputs =
  in_local_part :: string
  in_domain :: string
  in_medium :: nat
  in_source :: nat
  in_fetchone :: "int option option"
  in_score :: nat
  in_predicted_at :: real
  in_coupon_amount :: nat
  in_flip1 :: nat
  in_flip2 :: nat
  in_time :: real
  in_delay :: nat
  in_conversion_amount :: nat

definition medium_to_sources :: "string \<Rightarrow> string list" where
  "medium_to_sources m =
     (if m = ''email'' then [''klaviyo.com'']
      else if m = ''social'' then [''facebook.com'', ''twitter.com'', ''instagram.com'']
      else if m = ''organic'' then [''none'', ''google.com'']
      else [''hackernews.com'', ''reddit.com''])"

definition rand_lead :: "string \<Rightarrow> string \<Rightarrow> nat \<Rightarrow> nat \<Rightarrow> Lead" where
  "rand_lead local_part domain m src =
     (let email' = local_part @ ''@'' @ domain @ ''.com'';
          utm_medium' = choice [''email'', ''social'', ''organic'', ''referral''] m;
          utm_source' = choice (medium_to_sources utm_medium') src
      in \<lparr>email = email', utm_medium = utm_medium', utm_source = utm_source', lead_id = None\<rparr>)"

text \<open>The expression that assigns the experiment bucket, as a function of \<open>lead.id\<close>.\<close>

definition experiment_bucket :: "int \<Rightarrow> string" where
  "experiment_bucket i = (if i mod 10 \<le> 1 then ''control'' else ''experiment'')"

text \<open>
  \<open>create_lead\<close> returns the exception it raised, if any, and the connection, the queue
  and the producer as it left them.
\<close>

definition create_lead ::
  "lead_inputs \<Rightarrow> connection \<Rightarrow> heap \<Rightarrow> KafkaProducer
     \<Rightarrow> error option \<times> connection \<times> heap \<times> KafkaProducer" where
  "create_lead inp conn queue producer =
     (let ld = rand_lead (in_local_part inp) (in_domain inp) (in_medium inp) (in_source inp);
          conn1 = conn @ [Insert_lead (email ld) (utm_medium ld) (utm_source ld)];
          res = in_fetchone inp
      in case res of
           None \<Rightarrow> (Some RuntimeError, conn1, queue, producer)
         | Some res0 \<Rightarrow>
             (let ld = ld\<lparr>lead_id := res0\<rparr>
              in case lead_id ld of
                   None \<Rightarrow> (Some AssertionError, conn1, queue, producer)
                 | Some i \<Rightarrow>
                     (let score = random_float (in_score inp);
                          threshold = 0.5;
                          label = (if score > threshold then 1 else 0);
                          bucket = experiment_bucket i;
                          producer1 = log_prediction ld score label producer bucket
                                        (in_predicted_at inp);
                          sent_coupon = (label = 0 \<and> bucket \<noteq> ''control'');
                          conn2 = (if sent_coupon
                                   then log_coupon conn1 ld
                                          (randint 500 5000 (in_coupon_amount inp))
                                   else conn1);
                          did_convert = (random_float (in_flip1 inp) < score);
                          did_convert = (if sent_coupon \<and> \<not> did_convert
                                         then random_float (in_flip2 inp) < score
                                         else did_convert);
                          queue1 = (if did_convert
                                    then PriorityQueue_put queue
                                           \<lparr>converted_at =
                                              float_add (in_time inp)
                                                (float_mul (random_float (in_delay inp)) 30),
                                            lead = ld,
                                            conversion_amount =
                                              randint 1000 25000 (in_conversion_amount inp)\<rparr>
                                    else queue)
                      in (None, conn2, queue1, producer1))))"

subsection \<open>The consumer: \<open>convert\<close>\<close>

definition PERIOD :: real where
  "PERIOD = 0.05"

text \<open>
  The state of the running program: the shared queue, what each thread has sent to its
  collaborators, the local variable \<open>conversion_event\<close> of \<open>convert\<close> (\<open>None\<close> at the
  head of its loop), the sleeps each thread has made, and the exception that ended a
  thread, if one did.
\<close>

record sim_state =
  queue :: heap
  conn :: connection
  producer :: KafkaProducer
  convert_conn :: connection
  conversion_event :: "ConversionEvent option"
  convert_slept :: "real list"
  main_slept :: "real list"
  main_raised :: "error option"
  convert_raised :: "error option"

text \<open>
  The body of the loop of \<open>convert\<close> in its two atomic parts. Between them the other
  thread may run. \<open>convert_get\<close> is \<open>conversion_event = queue.get()\<close>; on an empty queue
  the call waits and the state stays as it is.
\<close>

definition convert_get :: "sim_state \<Rightarrow> sim_state" where
  "convert_get s =
     (case PriorityQueue_get (queue s) of
        None \<Rightarrow> s
      | Some (Inl e) \<Rightarrow> s\<lparr>convert_raised := Some e\<rparr>
      | Some (Inr (ev, q)) \<Rightarrow> s\<lparr>queue := q, conversion_event := Some ev\<rparr>)"

text \<open>The rest of the body, with \<open>now\<close> the value of \<open>time.time()\<close>.\<close>

definition convert_check :: "real \<Rightarrow> ConversionEvent \<Rightarrow> sim_state \<Rightarrow> sim_state" where
  "convert_check now ev s =
     (let time_to_wait = converted_at ev - now
      in if time_to_wait > PERIOD
         then s\<lparr>queue := PriorityQueue_put (queue s) ev,
                 convert_slept := convert_slept s @ [PERIOD],
                 conversion_event := None\<rparr>
         else s\<lparr>convert_conn := log_conversion (convert_conn s) (lead ev) (conversion_amount ev),
                 conversion_event := None\<rparr>)"

subsection \<open>\<open>run_simulation\<close>: the two threads under a schedule\<close>

text \<open>
  A schedule says which thread runs next and what it reads from outside: \<open>Main inp\<close> is
  one round of the loop of \<open>run_simulation\<close> (\<open>create_lead\<close>, then \<open>time.sleep(0.01)\<close>),
  \<open>Convert now\<close> the next atomic part of \<open>convert\<close>. \<open>create_lead\<close> touches the
  shared queue in its last statement only and shares nothing else with \<open>convert\<close>, so
  a round of the main thread is one step. Neither loop ends by itself; a schedule is a
  finite prefix of a run. \<open>run_simulation\<close> catches nothing, so an
  exception of \<open>create_lead\<close> ends the main thread; the thread of \<open>convert\<close> goes on.
\<close>

datatype action = Main lead_inputs | Convert real

fun step :: "action \<Rightarrow> sim_state \<Rightarrow> sim_state" where
  "step (Main inp) s =
     (if main_raised s \<noteq> None then s
      else case create_lead inp (conn s) (queue s) (producer s) of
             (Some e, conn', queue', producer') \<Rightarrow>
               s\<lparr>queue := queue', conn := conn', producer := producer', main_raised := Some e\<rparr>
           | (None, conn', queue', producer') \<Rightarrow>
               s\<lparr>queue := queue', conn := conn', producer := producer',
                 main_slept := main_slept s @ [0.01]\<rparr>)"
| "step (Convert now) s =
     (if convert_raised s \<noteq> None then s
      else case conversion_event s of
             None \<Rightarrow> convert_get s
           | Some ev \<Rightarrow> convert_check now ev s)"

fun run :: "action list \<Rightarrow> sim_state \<Rightarrow> sim_state" where
  "run [] s = s"
| "run (a # as) s = run as (step a s)"

definition initial :: sim_state where
  "initial = \<lparr>queue = [], conn = [], producer = [], convert_conn = [],
              conversion_event = None, convert_slept = [], main_slept = [],
              main_raised = None, convert_raised = None\<rparr>"

definition run_simulation :: "action list \<Rightarrow> sim_state" where
  "run_simulation schedule = run schedule initial"

section \<open>Notions used in the statements and proofs\<close>

subsection \<open>The heap invariant\<close>

text \<open>
  The invariant of \<open>heapq\<close>: no item is less than the item at its parent position.
  \<open>sifting\<close> and \<open>hole\<close> are the loop invariants of \<open>_siftdown\<close> and \<open>_siftup\<close>;
  \<open>smaller_child\<close> is the position \<open>_siftup\<close> moves up.
\<close>

definition parent :: "nat \<Rightarrow> nat" where
  "parent i = (i - 1) div 2"

definition is_heap :: "heap \<Rightarrow> bool" where
  "is_heap h = (\<forall>i \<in> {1..<length h}. \<not> ConversionEvent_lt (h ! i) (h ! ((i - 1) div 2)))"

definition sifting :: "heap \<Rightarrow> nat \<Rightarrow> bool" where
  "sifting g pos \<longleftrightarrow>
     (\<forall>i. 0 < i \<and> i < length g \<and> i \<noteq> pos \<longrightarrow> converted_at (g ! parent i) \<le> converted_at (g ! i)) \<and>
     (\<forall>i. 0 < i \<and> i < length g \<and> parent i = pos \<and> 0 < pos
          \<longrightarrow> converted_at (g ! parent pos) \<le> converted_at (g ! i))"

definition hole :: "heap \<Rightarrow> nat \<Rightarrow> bool" where
  "hole h pos \<longleftrightarrow>
     (\<forall>i. 0 < i \<and> i < length h \<and> parent i \<noteq> pos \<longrightarrow> converted_at (h ! parent i) \<le> converted_at (h ! i)) \<and>
     (\<forall>i. 0 < i \<and> i < length h \<and> parent i = pos \<and> 0 < pos
          \<longrightarrow> converted_at (h ! parent pos) \<le> converted_at (h ! i))"

definition smaller_child :: "heap \<Rightarrow> nat \<Rightarrow> nat \<Rightarrow> nat" where
  "smaller_child heap endpos pos =
     (if 2 * pos + 1 + 1 < endpos
         \<and> \<not> ConversionEvent_lt (heap ! (2 * pos + 1)) (heap ! (2 * pos + 1 + 1))
      then 2 * pos + 1 + 1 else 2 * pos + 1)"

subsection \<open>Sequences of queue operations\<close>

text \<open>
  \<open>run_ops\<close> applies a sequence of inserts and take-earliest calls to a queue and lists,
  for every call of \<open>get\<close> that returned, the event returned and the queue right after
  the call. A \<open>get\<close> on the empty queue has not returned and leaves the queue as it is.
\<close>

datatype queue_op = Insert ConversionEvent | Take_earliest

fun run_ops :: "queue_op list \<Rightarrow> heap \<Rightarrow> (ConversionEvent \<times> heap) list" where
  "run_ops [] q = []"
| "run_ops (Insert e # ops) q = run_ops ops (PriorityQueue_put q e)"
| "run_ops (Take_earliest # ops) q =
     (case PriorityQueue_get q of
        None \<Rightarrow> run_ops ops q
      | Some (Inl err) \<Rightarrow> []
      | Some (Inr (e, q')) \<Rightarrow> (e, q') # run_ops ops q')"

text \<open>
  \<open>queue_after\<close> is the queue once the operations have been applied, and \<open>inserted\<close>
  lists the events the operations insert.
\<close>

fun queue_after :: "queue_op list \<Rightarrow> heap \<Rightarrow> heap" where
  "queue_after [] q = q"
| "queue_after (Insert e # ops) q = queue_after ops (PriorityQueue_put q e)"
| "queue_after (Take_earliest # ops) q =
     (case PriorityQueue_get q of
        None \<Rightarrow> queue_after ops q
      | Some (Inl err) \<Rightarrow> q
      | Some (Inr (e, q')) \<Rightarrow> queue_after ops q')"

fun inserted :: "queue_op list \<Rightarrow> ConversionEvent list" where
  "inserted [] = []"
| "inserted (Insert e # ops) = e # inserted ops"
| "inserted (Take_earliest # ops) = inserted ops"

text \<open>
  \<open>drain\<close> lists the events a queue returns when they are taken off one after the
  other. In such a list \<open>x\<close> comes before \<open>y\<close> when both are in it and every place of
  \<open>x\<close> is before every place of \<open>y\<close>.
\<close>

definition drain :: "heap \<Rightarrow> ConversionEvent list" where
  "drain q = map fst (run_ops (replicate (length q) Take_earliest) q)"

definition comes_before :: "ConversionEvent list \<Rightarrow> ConversionEvent \<Rightarrow> ConversionEvent \<Rightarrow> bool" where
  "comes_before d x y \<longleftrightarrow>
     x \<in> set d \<and> y \<in> set d
     \<and> (\<forall>i < length d. \<forall>j < length d. d ! i = x \<and> d ! j = y \<longrightarrow> i < j)"

text \<open>An event with a given timestamp, lead identifier and amount, for the examples.\<close>

definition sample_event :: "real \<Rightarrow> int \<Rightarrow> int \<Rightarrow> ConversionEvent" where
  "sample_event t i a =
     \<lparr>converted_at = t,
      lead = \<lparr>email = ''abcd@xyz.com'', utm_medium = ''email'', utm_source = ''klaviyo.com'',
              lead_id = Some i\<rparr>,
      conversion_amount = a\<rparr>"

subsection \<open>Observing the consumer\<close>

text \<open>
  \<open>finalize_calls\<close> lists, along a schedule, every step of \<open>convert\<close> in which
  \<open>log_conversion\<close> was called (the step added a statement to the connection of
  \<open>convert\<close>), with the clock value that step had read and the event it held.
\<close>

fun finalize_calls :: "action list \<Rightarrow> sim_state \<Rightarrow> (real \<times> ConversionEvent) list" where
  "finalize_calls [] s = []"
| "finalize_calls (Main inp # as) s = finalize_calls as (step (Main inp) s)"
| "finalize_calls (Convert now # as) s =
     (case conversion_event s of
        None \<Rightarrow> []
      | Some ev \<Rightarrow> if convert_conn (step (Convert now) s) \<noteq> convert_conn s then [(now, ev)] else [])
     @ finalize_calls as (step (Convert now) s)"

text \<open>The steps of \<open>convert\<close> in a schedule, in their order.\<close>

fun convert_actions :: "action list \<Rightarrow> action list" where
  "convert_actions [] = []"
| "convert_actions (Main inp # as) = convert_actions as"
| "convert_actions (Convert now # as) = Convert now # convert_actions as"

subsection \<open>The local variables of \<open>create_lead\<close> as functions of its inputs\<close>

text \<open>
  For a call whose insert returned the identifier \<open>i\<close>: the lead once the identifier
  is assigned, the event the call may put on the queue, the score, and the values of
  \<open>sent_coupon\<close> and \<open>did_convert\<close>.
\<close>

definition persisted_lead :: "lead_inputs \<Rightarrow> int \<Rightarrow> Lead" where
  "persisted_lead inp i =
     (rand_lead (in_local_part inp) (in_domain inp) (in_medium inp) (in_source inp))
       \<lparr>lead_id := Some i\<rparr>"

definition scheduled_event :: "lead_inputs \<Rightarrow> int \<Rightarrow> ConversionEvent" where
  "scheduled_event inp i =
     \<lparr>converted_at = float_add (in_time inp) (float_mul (random_float (in_delay inp)) 30),
      lead = persisted_lead inp i,
      conversion_amount = randint 1000 25000 (in_conversion_amount inp)\<rparr>"

definition lead_score :: "lead_inputs \<Rightarrow> real" where
  "lead_score inp = random_float (in_score inp)"

definition coupon_sent :: "lead_inputs \<Rightarrow> int \<Rightarrow> bool" where
  "coupon_sent inp i \<longleftrightarrow> \<not> lead_score inp > 0.5 \<and> experiment_bucket i \<noteq> ''control''"

definition lead_converts :: "lead_inputs \<Rightarrow> int \<Rightarrow> bool" where
  "lead_converts inp i \<longleftrightarrow>
     (if coupon_sent inp i \<and> \<not> random_float (in_flip1 inp) < lead_score inp
      then random_float (in_flip2 inp) < lead_score inp
      else random_float (in_flip1 inp) < lead_score inp)"

text \<open>Every event in the queue or held by \<open>convert\<close> has a lead with an identifier.\<close>

definition ids_set :: "sim_state \<Rightarrow> bool" where
  "ids_set s \<longleftrightarrow> (\<forall>e \<in> set (queue s). lead_id (lead e) \<noteq> None)
       \<and> (\<forall>e. conversion_event s = Some e \<longrightarrow> lead_id (lead e) \<noteq> None)"

subsection \<open>Inputs for the examples\<close>

text \<open>
  \<open>half\<close> is the raw draw for which \<open>random.random()\<close> is \<open>0.5\<close>. \<open>sample_inputs\<close>
  fixes every input but the result of \<open>fetchone\<close>, the draws of the score and of the
  first flip, and the clock.
\<close>

definition half :: nat where
  "half = 2 ^ 52"

definition sample_inputs :: "int option option \<Rightarrow> nat \<Rightarrow> nat \<Rightarrow> real \<Rightarrow> lead_inputs" where
  "sample_inputs fetch score flip1 t =
     \<lparr>in_local_part = ''abcd'', in_domain = ''xyz'', in_medium = 0, in_source = 0,
      in_fetchone = fetch, in_score = score, in_predicted_at = t, in_coupon_amount = 7,
      in_flip1 = flip1, in_flip2 = 0, in_time = t, in_delay = half,
      in_conversion_amount = 5\<rparr>"

text \<open>
  \<open>quarter\<close> is the raw draw for which \<open>random.random()\<close> is \<open>0.25\<close>, and \<open>near_one\<close> the
  one for which it is \<open>1 - 2\<^sup>-\<^sup>2\<^sup>9\<close>. \<open>delayed_inputs\<close> are the sample inputs of a lead
  with the identifier \<open>i\<close>, with a given draw for the delay; \<open>late_inputs\<close> are those at
  the clock value 1700000000 with the draw \<open>near_one\<close>.
\<close>

definition quarter :: nat where
  "quarter = 2 ^ 51"

definition near_one :: nat where
  "near_one = 2 ^ 53 - 2 ^ 24"

definition delayed_inputs :: "int \<Rightarrow> real \<Rightarrow> nat \<Rightarrow> lead_inputs" where
  "delayed_inputs i t d = (sample_inputs (Some (Some i)) half 0 t)\<lparr>in_delay := d\<rparr>"

definition late_inputs :: lead_inputs where
  "late_inputs = (sample_inputs (Some (Some 7)) half 0 1700000000)\<lparr>in_delay := near_one\<rparr>"

text \<open>
  A schedule in which \<open>convert\<close> has taken the event of lead 7 (due at 115) and, before
  it looks at the clock, the main thread creates three leads whose events are due at
  101, 109 and 109.
\<close>

definition swap_schedule :: "action list" where
  "swap_schedule =
     [Main (sample_inputs (Some (Some 7)) half 0 100), Convert 100,
      Main (delayed_inputs 12 101 0),
      Main (delayed_inputs 13 (203 / 2) quarter),
      Main (delayed_inputs 14 109 0)]"

section \<open>Lemmas about the heap\<close>

lemma parent_less: "0 < n \<Longrightarrow> parent n < n"
  unfolding parent_def by arith

lemma parent_eq_iff: "0 < i \<Longrightarrow> parent i = p \<longleftrightarrow> i = 2 * p + 1 \<or> i = 2 * p + 2"
  unfolding parent_def by arith

lemma is_heap_iff:
  "is_heap h \<longleftrightarrow> (\<forall>i. 0 < i \<and> i < length h \<longrightarrow> converted_at (h ! parent i) \<le> converted_at (h ! i))"
  unfolding is_heap_def parent_def[symmetric]
  by (auto simp: ConversionEvent_lt_def not_less Suc_le_eq)

lemma siftdown_loop_unfold:
  "siftdown_loop heap startpos pos newitem =
     (if pos > startpos \<and> ConversionEvent_lt newitem (heap ! parent pos)
      then siftdown_loop (heap[pos := heap ! parent pos]) startpos (parent pos) newitem
      else heap[pos := newitem])"
  by (subst siftdown_loop.simps) (simp add: Let_def parent_def)

lemma siftdown_loop_length [simp]:
  "length (siftdown_loop h s p x) = length h"
  by (induction h s p x rule: siftdown_loop.induct)
     (subst siftdown_loop.simps, simp add: Let_def)

lemma mset_move_hole:
  assumes "p < length h" "q < length h" "p \<noteq> q"
  shows "mset (h[p := h ! q, q := x]) = mset (h[p := x])"
proof -
  let ?g = "h[p := x]"
  have "mset (?g[q := ?g ! p, p := ?g ! q]) = mset ?g"
    using assms by (intro mset_swap) simp_all
  moreover have "?g[q := ?g ! p, p := ?g ! q] = h[p := h ! q, q := x]"
    using assms by (auto simp add: list_eq_iff_nth_eq nth_list_update)
  ultimately show ?thesis by simp
qed

lemma siftdown_loop_mset:
  "p < length h \<Longrightarrow> mset (siftdown_loop h s p x) = mset (h[p := x])"
proof (induction h s p x rule: siftdown_loop.induct)
  case (1 heap startpos pos newitem)
  note IH = "1.IH"[OF _ refl refl, folded parent_def]
  show ?case
  proof (cases "pos > startpos \<and> ConversionEvent_lt newitem (heap ! parent pos)")
    case True
    have pp: "parent pos < pos" using True by (intro parent_less) simp
    have "mset (siftdown_loop (heap[pos := heap ! parent pos]) startpos (parent pos) newitem)
        = mset (heap[pos := heap ! parent pos, parent pos := newitem])"
      using True "1.prems" pp by (intro IH) simp_all
    also have "\<dots> = mset (heap[pos := newitem])"
      using pp "1.prems" by (intro mset_move_hole) simp_all
    finally show ?thesis
      using True by (subst siftdown_loop_unfold) simp
  next
    case False
    then show ?thesis
      by (subst siftdown_loop_unfold) auto
  qed
qed

lemma sifting_step:
  assumes pos: "pos < length h" "0 < pos"
    and s: "sifting (h[pos := x]) pos"
    and lt: "converted_at x < converted_at (h ! parent pos)"
  shows "sifting (h[pos := h ! parent pos, parent pos := x]) (parent pos)"
proof -
  define pp where "pp = parent pos"
  let ?g = "h[pos := x]"
  let ?g2 = "h[pos := h ! pp, pp := x]"
  have pp: "pp < pos" "pp \<noteq> pos" "pp < length h"
    using pos parent_less[of pos] by (simp_all add: pp_def)
  have a: "converted_at (?g ! parent i) \<le> converted_at (?g ! i)" if "0 < i" "i < length h" "i \<noteq> pos" for i
    using s that unfolding sifting_def length_list_update by blast
  have b: "converted_at (?g ! pp) \<le> converted_at (?g ! i)" if "0 < i" "i < length h" "parent i = pos" for i
    using s that pos unfolding sifting_def length_list_update pp_def by blast
  have up: "converted_at (h ! pp) \<le> converted_at (h ! i)" if "0 < i" "i < length h" "i \<noteq> pos" "parent i = pp" for i
    using a[OF that(1,2,3)] that pp pos(1) by (simp add: nth_list_update)
  have A: "converted_at (?g2 ! parent i) \<le> converted_at (?g2 ! i)" if i: "0 < i" "i < length h" "i \<noteq> pp" for i
  proof -
    have pi: "parent i < length h" using parent_less[OF i(1)] i(2) by simp
    consider "i = pos" | "i \<noteq> pos" "parent i = pp" | "i \<noteq> pos" "parent i = pos"
      | "i \<noteq> pos" "parent i \<noteq> pp" "parent i \<noteq> pos" by blast
    then show ?thesis
    proof cases
      case 1
      then show ?thesis using lt pp pos(1) by (simp add: nth_list_update pp_def[symmetric])
    next
      case 2
      have "converted_at x \<le> converted_at (h ! i)" using up[OF i(1,2) 2] lt by (simp add: pp_def)
      then show ?thesis using 2 i pp pos(1) by (simp add: nth_list_update)
    next
      case 3
      have "converted_at (h ! pp) \<le> converted_at (h ! i)"
        using b[OF i(1,2) 3(2)] 3(1) pp pos(1) by (simp add: nth_list_update)
      then show ?thesis using 3 i pp pos(1) by (simp add: nth_list_update)
    next
      case 4
      have "converted_at (h ! parent i) \<le> converted_at (h ! i)"
        using a[OF i(1,2) 4(1)] 4 pos(1) by (simp add: nth_list_update)
      then show ?thesis using 4 i pp pos(1) by (simp add: nth_list_update)
    qed
  qed
  have B: "converted_at (?g2 ! parent pp) \<le> converted_at (?g2 ! i)"
    if i: "0 < i" "i < length h" "parent i = pp" "0 < pp" for i
  proof -
    have ppp: "parent pp < pp" using i(4) by (rule parent_less)
    have i_pp: "i \<noteq> pp" using parent_less[OF i(1)] i(3) by simp
    have 1: "converted_at (h ! parent pp) \<le> converted_at (h ! pp)"
      using a[OF i(4) pp(3) pp(2)] pp ppp pos(1) by (simp add: nth_list_update)
    show ?thesis
    proof (cases "i = pos")
      case True
      then show ?thesis using 1 ppp pp pos(1) by (simp add: nth_list_update)
    next
      case False
      have "converted_at (h ! pp) \<le> converted_at (h ! i)" by (rule up[OF i(1,2) False i(3)])
      then show ?thesis using 1 False ppp pp i_pp pos(1) by (simp add: nth_list_update)
    qed
  qed
  show ?thesis
    unfolding sifting_def length_list_update pp_def[symmetric] using A B by blast
qed

lemma siftdown_loop_heap:
  "pos < length h \<Longrightarrow> s = 0 \<Longrightarrow> sifting (h[pos := x]) pos \<Longrightarrow> is_heap (siftdown_loop h s pos x)"
proof (induction h s pos x rule: siftdown_loop.induct)
  case (1 heap startpos pos newitem)
  note IH = "1.IH"[OF _ refl refl, folded parent_def]
  show ?case
  proof (cases "pos > startpos \<and> ConversionEvent_lt newitem (heap ! parent pos)")
    case True
    have pp: "parent pos < pos" using True by (intro parent_less) simp
    have "sifting (heap[pos := heap ! parent pos, parent pos := newitem]) (parent pos)"
      using True "1.prems" by (intro sifting_step) (simp_all add: ConversionEvent_lt_def)
    then have "is_heap (siftdown_loop (heap[pos := heap ! parent pos]) startpos (parent pos) newitem)"
      using True "1.prems" pp by (intro IH) simp_all
    then show ?thesis
      using True by (subst siftdown_loop_unfold) simp
  next
    case False
    have "is_heap (heap[pos := newitem])"
      unfolding is_heap_iff
    proof (intro allI impI)
      fix i assume i: "0 < i \<and> i < length (heap[pos := newitem])"
      show "converted_at (heap[pos := newitem] ! parent i) \<le> converted_at (heap[pos := newitem] ! i)"
      proof (cases "i = pos")
        case True
        then have "\<not> ConversionEvent_lt newitem (heap ! parent pos)" "parent pos < pos"
          using False i "1.prems"(2) parent_less[of pos] by simp_all
        then show ?thesis using True "1.prems"(1) by (simp add: ConversionEvent_lt_def nth_list_update)
      next
        case ne: False
        then show ?thesis using "1.prems"(3) i unfolding sifting_def by blast
      qed
    qed
    then show ?thesis
      using False by (subst siftdown_loop_unfold) auto
  qed
qed

lemma sifting_leaf:
  assumes "is_heap h"
  shows "sifting (h @ [x]) (length h)"
  unfolding sifting_def
proof (intro conjI allI impI)
  fix i assume "0 < i \<and> i < length (h @ [x]) \<and> i \<noteq> length h"
  then have i: "0 < i" "i < length h" by simp_all
  then have "parent i < length h" using parent_less[of i] by simp
  then show "converted_at ((h @ [x]) ! parent i) \<le> converted_at ((h @ [x]) ! i)"
    using assms i by (simp add: is_heap_iff nth_append)
next
  fix i assume "0 < i \<and> i < length (h @ [x]) \<and> parent i = length h \<and> 0 < length h"
  then have False using parent_less[of i] by simp
  then show "converted_at ((h @ [x]) ! parent (length h)) \<le> converted_at ((h @ [x]) ! i)" ..
qed

lemma heappush_heap: "is_heap h \<Longrightarrow> is_heap (heappush h x)"
  using siftdown_loop_heap[of "length h" "h @ [x]" 0 x] sifting_leaf[of h x]
  by (simp add: heappush_def siftdown_def)

lemma heappush_mset: "mset (heappush h x) = add_mset x (mset h)"
  using siftdown_loop_mset[of "length h" "h @ [x]" 0 x]
  by (simp add: heappush_def siftdown_def)

lemma siftup_loop_unfold:
  "siftup_loop heap endpos pos =
     (if 2 * pos + 1 < endpos
      then siftup_loop (heap[pos := heap ! smaller_child heap endpos pos]) endpos
             (smaller_child heap endpos pos)
      else (heap, pos))"
  by (subst siftup_loop.simps) (simp only: Let_def smaller_child_def)

lemma smaller_child_props:
  assumes "2 * pos + 1 < length h"
  shows "smaller_child h (length h) pos < length h"
    and "parent (smaller_child h (length h) pos) = pos"
    and "pos < smaller_child h (length h) pos"
    and "0 < i \<Longrightarrow> i < length h \<Longrightarrow> parent i = pos
           \<Longrightarrow> converted_at (h ! smaller_child h (length h) pos) \<le> converted_at (h ! i)"
proof -
  let ?c = "smaller_child h (length h) pos"
  show "?c < length h" using assms by (simp add: smaller_child_def)
  have cc: "?c = 2 * pos + 1 \<or> ?c = 2 * pos + 2" by (simp add: smaller_child_def)
  then have "0 < ?c" by arith
  then show "parent ?c = pos" using cc parent_eq_iff[of ?c pos] by simp
  show "pos < ?c" using cc by arith
  assume i: "0 < i" "i < length h" "parent i = pos"
  then have "i = 2 * pos + 1 \<or> i = 2 * pos + 2" using parent_eq_iff[of i pos] by simp
  then show "converted_at (h ! ?c) \<le> converted_at (h ! i)"
  proof
    assume "i = 2 * pos + 1"
    then show ?thesis by (simp add: smaller_child_def ConversionEvent_lt_def)
  next
    assume "i = 2 * pos + 2"
    then show ?thesis using i(2) by (simp add: smaller_child_def ConversionEvent_lt_def)
  qed
qed

lemma hole_step:
  assumes len: "2 * pos + 1 < length h"
    and h: "hole h pos"
  shows "hole (h[pos := h ! smaller_child h (length h) pos]) (smaller_child h (length h) pos)"
proof -
  define c where "c = smaller_child h (length h) pos"
  let ?h1 = "h[pos := h ! c]"
  note sc = smaller_child_props[OF len, folded c_def]
  have pos: "pos < length h" using sc(1,3) by simp
  have a: "converted_at (h ! parent i) \<le> converted_at (h ! i)"
    if "0 < i" "i < length h" "parent i \<noteq> pos" for i
    using h that unfolding hole_def by blast
  have b: "converted_at (h ! parent pos) \<le> converted_at (h ! i)"
    if "0 < i" "i < length h" "parent i = pos" "0 < pos" for i
    using h that unfolding hole_def by blast
  have A: "converted_at (?h1 ! parent i) \<le> converted_at (?h1 ! i)"
    if i: "0 < i" "i < length h" "parent i \<noteq> c" for i
  proof -
    consider "parent i = pos" | "parent i \<noteq> pos" "i = pos" | "parent i \<noteq> pos" "i \<noteq> pos"
      by blast
    then show ?thesis
    proof cases
      case 1
      then have "pos \<noteq> i" using parent_less[OF i(1)] by simp
      then show ?thesis using sc(4)[OF i(1,2) 1] 1 pos by (simp add: nth_list_update)
    next
      case 2
      then have pp: "parent pos \<noteq> pos" using i parent_less[of pos] by simp
      have "0 < c" using sc(3) by simp
      then have "converted_at (h ! parent pos) \<le> converted_at (h ! c)" using b[OF _ sc(1) sc(2)] 2 i(1) by simp
      then show ?thesis using 2 pp pos by (simp add: nth_list_update)
    next
      case 3
      then show ?thesis using a[OF i(1,2) 3(1)] pos by (simp add: nth_list_update)
    qed
  qed
  have B: "converted_at (?h1 ! parent c) \<le> converted_at (?h1 ! i)"
    if i: "0 < i" "i < length h" "parent i = c" for i
  proof -
    have "c < i" using parent_less[OF i(1)] i by simp
    then have ne: "pos \<noteq> i" "parent i \<noteq> pos" using sc(3) i(3) by simp_all
    have "converted_at (h ! c) \<le> converted_at (h ! i)" using a[OF i(1,2) ne(2)] i(3) by simp
    then show ?thesis using ne pos by (simp add: sc(2) nth_list_update)
  qed
  show ?thesis
    unfolding hole_def length_list_update c_def[symmetric] using A B by blast
qed

lemma siftup_loop_hole:
  "pos < length h \<Longrightarrow> endpos = length h \<Longrightarrow> hole h pos \<Longrightarrow> siftup_loop h endpos pos = (h', pos')
   \<Longrightarrow> length h' = length h \<and> pos' < length h \<and> hole h' pos' \<and> length h \<le> 2 * pos' + 1
       \<and> (\<forall>x. mset (h'[pos' := x]) = mset (h[pos := x]))"
proof (induction h endpos pos arbitrary: h' pos' rule: siftup_loop.induct)
  case (1 heap endpos pos)
  show ?case
  proof (cases "2 * pos + 1 < endpos")
    case True
    define c where "c = smaller_child heap endpos pos"
    note IH = "1.IH"[OF refl True refl c_def[unfolded smaller_child_def]]
    have len: "2 * pos + 1 < length heap" using True "1.prems"(2) by simp
    have c_eq: "c = smaller_child heap (length heap) pos" by (simp add: c_def "1.prems"(2))
    note sc = smaller_child_props[OF len, folded c_eq]
    have eq: "siftup_loop (heap[pos := heap ! c]) endpos c = (h', pos')"
      using "1.prems"(4) True by (subst (asm) siftup_loop_unfold) (simp add: c_def)
    have hc: "hole (heap[pos := heap ! c]) c"
      using hole_step[OF len "1.prems"(3)] by (simp add: c_def "1.prems"(2))
    have ih: "length h' = length (heap[pos := heap ! c]) \<and> pos' < length (heap[pos := heap ! c])
        \<and> hole h' pos' \<and> length (heap[pos := heap ! c]) \<le> 2 * pos' + 1
        \<and> (\<forall>x. mset (h'[pos' := x]) = mset (heap[pos := heap ! c, c := x]))"
    proof (rule IH)
      show "c < length (heap[pos := heap ! c])" using sc(1) by simp
      show "endpos = length (heap[pos := heap ! c])" using "1.prems"(2) by simp
      show "hole (heap[pos := heap ! c]) c" by (rule hc)
      show "siftup_loop (heap[pos := heap ! c]) endpos c = (h', pos')" by (rule eq)
    qed
    have "mset (heap[pos := heap ! c, c := x]) = mset (heap[pos := x])" for x
      using sc(1,3) "1.prems"(1) by (intro mset_move_hole) simp_all
    then show ?thesis using ih by simp
  next
    case False
    have "siftup_loop heap endpos pos = (heap, pos)"
      using False by (subst siftup_loop_unfold) simp
    then have "h' = heap" "pos' = pos"
      using "1.prems"(4) by simp_all
    then show ?thesis using False "1.prems" by simp
  qed
qed

lemma hole_leaf_sifting:
  assumes h: "hole h pos" and leaf: "length h \<le> 2 * pos + 1" and pos: "pos < length h"
  shows "sifting (h[pos := x]) pos"
proof -
  have no_child: "parent i \<noteq> pos" if "0 < i" "i < length h" for i
    using parent_eq_iff[OF that(1), of pos] that(2) leaf by arith
  have "converted_at (h[pos := x] ! parent i) \<le> converted_at (h[pos := x] ! i)"
    if i: "0 < i" "i < length h" "i \<noteq> pos" for i
  proof -
    have "converted_at (h ! parent i) \<le> converted_at (h ! i)"
      using h i no_child[OF i(1,2)] unfolding hole_def by blast
    then show ?thesis using i(3) no_child[OF i(1,2)] by (simp add: nth_list_update)
  qed
  then show ?thesis
    unfolding sifting_def length_list_update using no_child by blast
qed

lemma siftup_root:
  assumes g: "g \<noteq> []" and h: "hole g 0"
  shows "is_heap (siftup g 0)" and "mset (siftup g 0) = mset g"
proof -
  obtain h' pos' where loop: "siftup_loop g (length g) 0 = (h', pos')"
    by (cases "siftup_loop g (length g) 0") 
  have pos0: "0 < length g" using g by simp
  note props = siftup_loop_hole[OF pos0 refl h loop]
  have len: "length h' = length g" and pos': "pos' < length g" and hole': "hole h' pos'"
    and leaf: "length g \<le> 2 * pos' + 1"
    and ms: "mset (h'[pos' := x]) = mset (g[0 := x])" for x
    using props by simp_all
  have unfold: "siftup g 0 = siftdown_loop (h'[pos' := g ! 0]) 0 pos' (g ! 0)"
    using pos' len by (simp add: siftup_def loop siftdown_def Let_def)
  have "sifting (h'[pos' := g ! 0]) pos'"
    using hole_leaf_sifting[OF hole'] leaf pos' len by simp
  then have "sifting (h'[pos' := g ! 0, pos' := g ! 0]) pos'" by simp
  then show "is_heap (siftup g 0)"
    unfolding unfold using pos' len by (intro siftdown_loop_heap) simp_all
  have "mset (siftup g 0) = mset (h'[pos' := g ! 0, pos' := g ! 0])"
    unfolding unfold using pos' len by (intro siftdown_loop_mset) simp
  then show "mset (siftup g 0) = mset g"
    using ms[of "g ! 0"] by simp
qed

lemma heap_root_min:
  assumes "is_heap h"
  shows "i < length h \<Longrightarrow> converted_at (h ! 0) \<le> converted_at (h ! i)"
proof (induction i rule: less_induct)
  case (less i)
  show ?case
  proof (cases "i = 0")
    case True
    then show ?thesis by simp
  next
    case False
    then have i: "0 < i" by simp
    have p: "parent i < i" by (rule parent_less[OF i])
    have "converted_at (h ! 0) \<le> converted_at (h ! parent i)" using less p by simp
    also have "\<dots> \<le> converted_at (h ! i)" using assms i less.prems unfolding is_heap_iff by blast
    finally show ?thesis .
  qed
qed

lemma hole_replace_root:
  assumes "is_heap (h @ [y])" "h \<noteq> []"
  shows "hole (h[0 := y]) 0"
proof -
  have "converted_at (h[0 := y] ! parent i) \<le> converted_at (h[0 := y] ! i)"
    if i: "0 < i" "i < length h" "parent i \<noteq> 0" for i
  proof -
    have p: "parent i < length h" using parent_less[OF i(1)] i(2) by simp
    have "converted_at ((h @ [y]) ! parent i) \<le> converted_at ((h @ [y]) ! i)"
      using assms(1) i unfolding is_heap_iff by simp
    then show ?thesis using i p by (simp add: nth_append nth_list_update)
  qed
  then show ?thesis unfolding hole_def length_list_update by blast
qed

lemma heappop_nonempty:
  assumes "is_heap h" "h \<noteq> []"
  shows "\<exists>h'. heappop h = Inr (h ! 0, h') \<and> is_heap h' \<and> mset h = add_mset (h ! 0) (mset h')"
proof (cases "butlast h = []")
  case True
  then have "h = [last h]" using assms(2) by (metis append_butlast_last_id append_Nil)
  then have h: "h = [h ! 0]" by (metis nth_Cons_0)
  have "heappop h = Inr (h ! 0, [])"
    by (subst (1 2) h) (simp add: heappop_def)
  moreover have "is_heap []" by (simp add: is_heap_def)
  moreover have "mset h = add_mset (h ! 0) (mset [])" by (subst h) simp
  ultimately show ?thesis by blast
next
  case False
  define g where "g = butlast h"
  define y where "y = last h"
  have h: "h = g @ [y]" using assms(2) by (simp add: g_def y_def)
  have g: "g \<noteq> []" using False by (simp add: g_def)
  have root: "h ! 0 = g ! 0" using g by (simp add: h nth_append)
  have hole: "hole (g[0 := y]) 0"
    using hole_replace_root[of g y] assms(1) g by (simp add: h)
  have g': "g[0 := y] \<noteq> []" using g by simp
  note su = siftup_root[OF g' hole]
  have pop: "heappop h = Inr (h ! 0, siftup (g[0 := y]) 0)"
    using g by (simp add: heappop_def h nth_append)
  have "mset (g[0 := y]) = add_mset y (mset g - {#g ! 0#})"
    using g by (simp add: mset_update)
  moreover have "g ! 0 \<in># mset g" using g by simp
  ultimately have "mset h = add_mset (h ! 0) (mset (g[0 := y]))"
    by (simp add: h root nth_append g)
  then show ?thesis using su pop by simp
qed

lemma get_heap:
  assumes "is_heap q" "PriorityQueue_get q = Some r"
  shows "\<exists>q'. r = Inr (q ! 0, q') \<and> is_heap q' \<and> mset q = add_mset (q ! 0) (mset q')"
proof -
  have ne: "q \<noteq> []" using assms(2) by (auto simp: PriorityQueue_get_def split: if_splits)
  then have "r = heappop q" using assms(2) by (simp add: PriorityQueue_get_def)
  then show ?thesis using heappop_nonempty[OF assms(1) ne] by simp
qed

lemma get_minimum:
  assumes "is_heap q" "PriorityQueue_get q = Some (Inr (e, q'))" "x \<in> set q'"
  shows "converted_at e \<le> converted_at x"
proof -
  obtain q'' where r: "Inr (e, q') = (Inr (q ! 0, q'') :: error + ConversionEvent \<times> heap)"
    and ms: "mset q = add_mset (q ! 0) (mset q'')"
    using get_heap[OF assms(1,2)] by blast
  then have e: "e = q ! 0" "q' = q''" by simp_all
  have "x \<in># mset q" using assms(3) ms e by simp
  then have "x \<in> set q" by simp
  then obtain i where "i < length q" "q ! i = x" by (auto simp: in_set_conv_nth)
  then show ?thesis using heap_root_min[OF assms(1), of i] e by simp
qed

lemma run_ops_minimum:
  "is_heap q \<Longrightarrow> (e, q') \<in> set (run_ops ops q) \<Longrightarrow> x \<in> set q' \<Longrightarrow> converted_at e \<le> converted_at x"
proof (induction ops q rule: run_ops.induct)
  case (1 q)
  then show ?case by simp
next
  case (2 e0 ops q)
  then show ?case by (simp add: PriorityQueue_put_def heappush_heap)
next
  case (3 ops q)
  show ?case
  proof (cases "PriorityQueue_get q")
    case None
    then show ?thesis using 3 by simp
  next
    case (Some r)
    obtain q1 where r: "r = Inr (q ! 0, q1)" and h1: "is_heap q1"
      using get_heap[OF "3.prems"(1) Some] by blast
    have "(e, q') = (q ! 0, q1) \<or> (e, q') \<in> set (run_ops ops q1)"
      using "3.prems"(2) Some r by simp
    then show ?thesis
    proof
      assume "(e, q') = (q ! 0, q1)"
      then show ?thesis using get_minimum[OF "3.prems"(1), of e q' x] Some r "3.prems"(3) by simp
    next
      assume "(e, q') \<in> set (run_ops ops q1)"
      then show ?thesis using "3.IH"(2)[OF Some r refl h1 _ "3.prems"(3)] by simp
    qed
  qed
qed

lemma drain_sorted:
  "is_heap q \<Longrightarrow>
     sorted (map converted_at (map fst (run_ops (replicate n Take_earliest) q)))
     \<and> mset (map fst (run_ops (replicate n Take_earliest) q)) \<subseteq># mset q
     \<and> (length q \<le> n \<longrightarrow> mset (map fst (run_ops (replicate n Take_earliest) q)) = mset q)"
proof (induction n arbitrary: q)
  case 0
  then show ?case by simp
next
  case (Suc n)
  show ?case
  proof (cases "PriorityQueue_get q")
    case None
    then have "q = []" by (simp add: PriorityQueue_get_def split: if_splits)
    then show ?thesis using None Suc.IH[of q] Suc.prems by simp
  next
    case (Some r)
    then obtain q' where r: "r = Inr (q ! 0, q')" and h': "is_heap q'"
      and ms: "mset q = add_mset (q ! 0) (mset q')"
      using get_heap[OF Suc.prems Some] by blast
    let ?rest = "map fst (run_ops (replicate n Take_earliest) q')"
    note IH = Suc.IH[OF h']
    have run: "map fst (run_ops (replicate (Suc n) Take_earliest) q) = q ! 0 # ?rest"
      using Some r by simp
    have len: "length q = Suc (length q')"
      using ms by (metis size_mset size_add_mset)
    have "converted_at (q ! 0) \<le> converted_at x" if "x \<in> set ?rest" for x
    proof -
      have "x \<in># mset ?rest" using that by simp
      then have "x \<in># mset q'" using IH by (meson mset_subset_eqD)
      then have "x \<in> set q'" by simp
      then show ?thesis using get_minimum[OF Suc.prems] Some r by simp
    qed
    then have 1: "sorted (map converted_at (q ! 0 # ?rest))"
      using IH by auto
    have 2: "mset (q ! 0 # ?rest) \<subseteq># mset q"
      using IH ms by simp
    have 3: "mset (q ! 0 # ?rest) = mset q" if "length q \<le> Suc n"
      using IH ms that len by simp
    show ?thesis unfolding run using 1 2 3 by blast
  qed
qed

lemma siftdown_loop_keeps:
  "i < length h \<Longrightarrow> i \<noteq> p \<Longrightarrow> converted_at (h ! i) \<le> converted_at x
     \<Longrightarrow> siftdown_loop h s p x ! i = h ! i"
proof (induction h s p x rule: siftdown_loop.induct)
  case (1 heap startpos pos newitem)
  note IH = "1.IH"[OF _ refl refl, folded parent_def]
  show ?case
  proof (cases "pos > startpos \<and> ConversionEvent_lt newitem (heap ! parent pos)")
    case True
    then have ne: "i \<noteq> parent pos"
      using "1.prems"(3) by (auto simp: ConversionEvent_lt_def)
    have "siftdown_loop (heap[pos := heap ! parent pos]) startpos (parent pos) newitem ! i
          = heap[pos := heap ! parent pos] ! i"
      using True "1.prems" ne by (intro IH) simp_all
    then show ?thesis
      using True "1.prems"(2) by (subst siftdown_loop_unfold) simp
  next
    case False
    then show ?thesis
      using "1.prems"(2) by (subst siftdown_loop_unfold) auto
  qed
qed

lemma heappush_keeps:
  "i < length h \<Longrightarrow> converted_at (h ! i) \<le> converted_at x \<Longrightarrow> heappush h x ! i = h ! i"
  using siftdown_loop_keeps[of i "h @ [x]" "length h" x 0]
  by (simp add: heappush_def siftdown_def nth_append)

lemma heappush_length [simp]: "length (heappush h x) = Suc (length h)"
  by (simp add: heappush_def siftdown_def)

lemma set_heappush: "set (heappush h x) = insert x (set h)"
  using heappush_mset[of h x] by (metis set_mset_add_mset_insert set_mset_mset)

lemma get_nonempty:
  assumes "is_heap q" "q \<noteq> []"
  shows "\<exists>q'. PriorityQueue_get q = Some (Inr (q ! 0, q')) \<and> is_heap q'
           \<and> mset q = add_mset (q ! 0) (mset q')
           \<and> (\<forall>x \<in> set q'. converted_at (q ! 0) \<le> converted_at x)"
proof -
  have g: "PriorityQueue_get q = Some (heappop q)"
    using assms(2) by (simp add: PriorityQueue_get_def)
  then obtain q' where q': "heappop q = Inr (q ! 0, q')" "is_heap q'"
    "mset q = add_mset (q ! 0) (mset q')"
    using get_heap[OF assms(1) g] by blast
  have "converted_at (q ! 0) \<le> converted_at x" if "x \<in> set q'" for x
    using get_minimum[OF assms(1), of "q ! 0" q' x] g q'(1) that by simp
  then show ?thesis using g q' by auto
qed

lemma run_ops_conserves:
  "is_heap q \<Longrightarrow>
     is_heap (queue_after ops q)
     \<and> mset (map fst (run_ops ops q)) + mset (queue_after ops q) = mset q + mset (inserted ops)"
proof (induction ops q rule: run_ops.induct)
  case (1 q)
  then show ?case by simp
next
  case (2 e ops q)
  have h: "is_heap (PriorityQueue_put q e)"
    using "2.prems" by (simp add: PriorityQueue_put_def heappush_heap)
  show ?case
    using "2.IH"[OF h] by (simp add: PriorityQueue_put_def heappush_mset)
next
  case (3 ops q)
  show ?case
  proof (cases "q = []")
    case True
    then have "PriorityQueue_get q = None" by (simp add: PriorityQueue_get_def)
    then show ?thesis using "3.IH"(1) "3.prems" by simp
  next
    case False
    then obtain q' where g: "PriorityQueue_get q = Some (Inr (q ! 0, q'))" and h: "is_heap q'"
      and ms: "mset q = add_mset (q ! 0) (mset q')"
      using get_nonempty[OF "3.prems"] by blast
    show ?thesis
      using "3.IH"(2)[OF g refl refl h] g ms by simp
  qed
qed

lemma sorted_comes_before:
  assumes "sorted (map converted_at d)" "x \<in> set d" "y \<in> set d"
    "converted_at x < converted_at y"
  shows "comes_before d x y"
proof -
  have "i < j" if "i < length d" "j < length d" "d ! i = x" "d ! j = y" for i j
  proof (rule ccontr)
    assume "\<not> i < j"
    then have ji: "j \<le> i" by simp
    have "i < length (map converted_at d)" using that(1) by simp
    from sorted_nth_mono[OF assms(1) ji this]
    have "converted_at (d ! j) \<le> converted_at (d ! i)" using that(1,2) by simp
    then show False using that assms(4) by simp
  qed
  then show ?thesis using assms(2,3) by (simp add: comes_before_def)
qed

lemma drain_heap:
  assumes "is_heap q"
  shows "sorted (map converted_at (drain q))" "mset (drain q) = mset q"
  using drain_sorted[OF assms, of "length q"] by (simp_all add: drain_def)

text \<open>The equations that evaluate the queue operations on a given list by rewriting.\<close>

lemmas queue_eval =
  siftdown_loop_unfold siftup_loop_unfold smaller_child_def parent_def heappush_def
  heappop_def siftdown_def siftup_def PriorityQueue_put_def PriorityQueue_get_def
  ConversionEvent_lt_def sample_event_def Let_def

section \<open>Lemmas about rounding to double precision\<close>

lemma rhe_cases:
  "round_half_even x = \<lfloor>x\<rfloor> \<or> round_half_even x = \<lfloor>x\<rfloor> + 1"
  by (simp add: round_half_even_def Let_def)

lemma rhe_floor_le: "\<lfloor>x\<rfloor> \<le> round_half_even x"
  using rhe_cases[of x] by linarith

lemma rhe_le_floor: "round_half_even x \<le> \<lfloor>x\<rfloor> + 1"
  using rhe_cases[of x] by linarith

lemma rhe_int [simp]: "round_half_even (of_int n) = n"
  by (simp add: round_half_even_def)

lemma rhe_nearest:
  assumes "of_int n - 1 / 2 < x" "x < of_int n + 1 / 2"
  shows "round_half_even x = n"
proof (cases "of_int n \<le> x")
  case True
  then have f: "\<lfloor>x\<rfloor> = n" using assms(2) by linarith
  have "x - of_int n < 1 / 2" using assms(2) by simp
  then show ?thesis by (simp add: round_half_even_def f)
next
  case False
  then have f: "\<lfloor>x\<rfloor> = n - 1" using assms(1) by linarith
  have "x - of_int (n - 1) > 1 / 2" using assms(1) by simp
  then show ?thesis unfolding round_half_even_def f Let_def by simp
qed

lemma rhe_mono:
  assumes "x \<le> y"
  shows "round_half_even x \<le> round_half_even y"
proof (cases "\<lfloor>x\<rfloor> = \<lfloor>y\<rfloor>")
  case True
  have "x - of_int \<lfloor>y\<rfloor> \<le> y - of_int \<lfloor>y\<rfloor>" using assms by simp
  then show ?thesis
    unfolding round_half_even_def True Let_def by auto
next
  case False
  have "\<lfloor>x\<rfloor> \<le> \<lfloor>y\<rfloor>" using assms by (rule floor_mono)
  then have "\<lfloor>x\<rfloor> + 1 \<le> \<lfloor>y\<rfloor>" using False by simp
  then show ?thesis using rhe_le_floor[of x] rhe_floor_le[of y] by linarith
qed

lemma rhe_ge: "of_int n \<le> x \<Longrightarrow> n \<le> round_half_even x"
  using rhe_mono[of "of_int n" x] by simp

lemma rhe_le: "x \<le> of_int n \<Longrightarrow> round_half_even x \<le> n"
  using rhe_mono[of x "of_int n"] by simp

lemma ulp_pos [simp]: "0 < ulp x"
  by (simp add: ulp_def)

lemma ulp_nonneg [simp]: "0 \<le> ulp x"
  by (simp add: ulp_def)

lemma div_ulp_mono: "a \<le> b \<Longrightarrow> a / ulp x \<le> b / ulp x"
  by (rule divide_right_mono) simp_all

lemma expo_mono: "0 < x \<Longrightarrow> x \<le> y \<Longrightarrow> expo x \<le> expo y"
  unfolding expo_def by (intro max.mono floor_mono) simp_all

lemma below_next_binade:
  assumes "0 < x"
  shows "x < 2 powr (of_int (expo x) + 1)"
proof -
  have "x < 2 powr (of_int \<lfloor>log 2 x\<rfloor> + 1)"
    using floor_log_eq_powr_iff[of x 2 "\<lfloor>log 2 x\<rfloor>"] assms by simp
  also have "\<dots> \<le> 2 powr (of_int (expo x) + 1)"
    using assms by (intro powr_mono) (simp_all add: expo_def)
  finally show ?thesis .
qed

lemma above_binade:
  assumes "0 < x" "- 1022 \<le> \<lfloor>log 2 x\<rfloor>"
  shows "2 powr of_int (expo x) \<le> x"
proof -
  have "expo x = \<lfloor>log 2 x\<rfloor>" using assms by (simp add: expo_def)
  then show ?thesis
    using floor_log_eq_powr_iff[of x 2 "\<lfloor>log 2 x\<rfloor>"] assms(1) by simp
qed

lemma ulp_times_53: "of_int (2 ^ 53) * ulp x = 2 powr (of_int (expo x) + 1)"
proof -
  have "of_int (2 ^ 53) * ulp x = 2 powr 53 * 2 powr (of_int (expo x) - 52)"
    by (simp add: ulp_def)
  also have "\<dots> = 2 powr (53 + (of_int (expo x) - 52))"
    by (rule powr_add [symmetric])
  also have "53 + (of_int (expo x) - 52) = of_int (expo x) + (1::real)" by simp
  finally show ?thesis .
qed

lemma ulp_times_52: "of_int (2 ^ 52) * ulp x = 2 powr of_int (expo x)"
proof -
  have "of_int (2 ^ 52) * ulp x = 2 powr 52 * 2 powr (of_int (expo x) - 52)"
    by (simp add: ulp_def)
  also have "\<dots> = 2 powr (52 + (of_int (expo x) - 52))"
    by (rule powr_add [symmetric])
  finally show ?thesis by simp
qed

lemma round_double_upper:
  assumes "0 < x"
  shows "round_double x \<le> 2 powr (of_int (expo x) + 1)"
proof -
  have "x \<le> of_int (2 ^ 53) * ulp x"
    unfolding ulp_times_53 using below_next_binade[OF assms] by simp
  then have "x / ulp x \<le> of_int (2 ^ 53)"
    by (simp only: pos_divide_le_eq [OF ulp_pos])
  then have "round_half_even (x / ulp x) \<le> 2 ^ 53" by (rule rhe_le)
  then have "of_int (round_half_even (x / ulp x)) * ulp x \<le> of_int (2 ^ 53) * ulp x"
    by (intro mult_right_mono) simp_all
  then show ?thesis
    unfolding ulp_times_53 using assms by (simp add: round_double_def)
qed

lemma round_double_lower:
  assumes "0 < x" "- 1022 \<le> \<lfloor>log 2 x\<rfloor>"
  shows "2 powr of_int (expo x) \<le> round_double x"
proof -
  have "of_int (2 ^ 52) * ulp x \<le> x"
    unfolding ulp_times_52 by (rule above_binade[OF assms])
  then have "of_int (2 ^ 52) \<le> x / ulp x"
    by (simp only: pos_le_divide_eq [OF ulp_pos])
  then have "2 ^ 52 \<le> round_half_even (x / ulp x)" by (rule rhe_ge)
  then have "of_int (2 ^ 52) * ulp x \<le> of_int (round_half_even (x / ulp x)) * ulp x"
    by (intro mult_right_mono) simp_all
  then show ?thesis
    unfolding ulp_times_52 using assms by (simp add: round_double_def)
qed

lemma round_double_nonneg: "0 \<le> x \<Longrightarrow> 0 \<le> round_double x"
proof -
  assume x: "0 \<le> x"
  then have "of_int 0 \<le> x / ulp x" by (simp add: divide_nonneg_pos)
  then have "0 \<le> round_half_even (x / ulp x)" by (rule rhe_ge)
  then show ?thesis by (simp add: round_double_def)
qed

lemma round_double_mono:
  assumes "0 \<le> x" "x \<le> y"
  shows "round_double x \<le> round_double y"
proof (cases "x = 0")
  case True
  then show ?thesis using assms round_double_nonneg[of y] by (simp add: round_double_def)
next
  case False
  then have x: "0 < x" and y: "0 < y" using assms by simp_all
  have le: "expo x \<le> expo y" using x assms(2) by (rule expo_mono)
  show ?thesis
  proof (cases "expo x = expo y")
    case True
    then have u: "ulp x = ulp y" by (simp add: ulp_def)
    have "x / ulp y \<le> y / ulp y" using assms(2) by (rule div_ulp_mono)
    then have "round_half_even (x / ulp y) \<le> round_half_even (y / ulp y)" by (rule rhe_mono)
    then have "of_int (round_half_even (x / ulp y)) * ulp y
        \<le> of_int (round_half_even (y / ulp y)) * ulp y"
      by (intro mult_right_mono) (simp_all add: less_imp_le)
    then show ?thesis using x y by (simp add: round_double_def u)
  next
    case ne: False
    then have lt: "expo x + 1 \<le> expo y" using le by simp
    then have "- 1022 < expo y" unfolding expo_def by linarith
    then have n: "- 1022 \<le> \<lfloor>log 2 y\<rfloor>" using y unfolding expo_def by linarith
    have "round_double x \<le> 2 powr (of_int (expo x) + 1)" by (rule round_double_upper[OF x])
    also have "\<dots> \<le> 2 powr of_int (expo y)"
    proof (rule powr_mono)
      have "of_int (expo x + 1) \<le> (of_int (expo y) :: real)"
        using lt by (simp only: of_int_le_iff)
      then show "of_int (expo x) + 1 \<le> (of_int (expo y) :: real)" by simp
    qed simp
    also have "\<dots> \<le> round_double y" by (rule round_double_lower[OF y n])
    finally show ?thesis .
  qed
qed

lemma round_double_exact:
  assumes "x / ulp x = of_int n"
  shows "round_double x = x"
proof -
  have "ulp x \<noteq> 0" by (simp add: ulp_def)
  then have "of_int n * ulp x = x"
    using assms by (simp add: nonzero_divide_eq_eq)
  then show ?thesis by (simp add: round_double_def assms)
qed

lemma ulp_eq:
  assumes "0 < x" "2 powr of_int e \<le> x" "x < 2 powr (of_int e + 1)" "- 1022 \<le> e"
  shows "ulp x = 2 powr (of_int e - 52)"
proof -
  have "\<lfloor>log 2 x\<rfloor> = e"
    using floor_log_eq_powr_iff[of x 2 e] assms by simp
  then show ?thesis using assms(1,4) by (simp add: ulp_def expo_def)
qed

lemma powr_neg_nat: "2 powr (- real k) = 1 / 2 ^ k"
  by (simp add: powr_minus_divide powr_realpow)

lemma round_double_int:
  assumes "0 \<le> n" "n < 2 ^ 53"
  shows "round_double (of_int n) = of_int n"
proof (cases "n = 0")
  case True
  then show ?thesis by (simp add: round_double_def)
next
  case False
  define x :: real where "x = of_int n"
  have x: "1 \<le> x" "x < 2 ^ 53" using assms False by (simp_all add: x_def)
  define e where "e = \<lfloor>log 2 x\<rfloor>"
  have e0: "0 \<le> e" using x(1) by (simp add: e_def)
  have "log 2 x < 53" using x by (subst log_less_iff) simp_all
  then have e52: "e \<le> 52" unfolding e_def by linarith
  have ex: "expo x = e"
  proof -
    have "\<bar>x\<bar> = x" using x(1) by simp
    then have "expo x = max e (- 1022)" by (simp only: expo_def e_def)
    then show ?thesis using e0 by simp
  qed
  define k where "k = nat (52 - e)"
  have "of_int e - 52 = - real k" using e52 by (simp add: k_def)
  then have "ulp x = 2 powr (- real k)" by (simp add: ulp_def ex)
  also have "\<dots> = inverse (2 ^ k)" by (simp add: powr_minus powr_realpow)
  finally have u: "ulp x = inverse (2 ^ k)" .
  have "x / ulp x = of_int (n * 2 ^ k)" unfolding u by (simp add: x_def divide_inverse)
  then have "round_double x = x" by (rule round_double_exact)
  then show ?thesis by (simp add: x_def)
qed

lemma round_double_numeral [simp]:
  "numeral w < (2 ^ 53 :: int) \<Longrightarrow> round_double (numeral w) = numeral w"
  using round_double_int[of "numeral w"] by simp

lemma round_double_zero [simp]: "round_double 0 = 0"
  by (simp add: round_double_def)

lemma round_double_halves:
  assumes "2 \<le> n" "n < 2 ^ 53"
  shows "round_double (of_int n / 2) = of_int n / 2"
proof -
  define x :: real where "x = of_int n / 2"
  have "(2::real) \<le> of_int n" using assms(1) by linarith
  moreover have "of_int n < (2 ^ 53 :: real)"
    using assms(2) by (metis of_int_less_iff of_int_numeral of_int_power)
  ultimately have x: "1 \<le> x" "x < 2 ^ 52" by (simp_all add: x_def)
  define e where "e = \<lfloor>log 2 x\<rfloor>"
  have e0: "0 \<le> e" using x(1) by (simp add: e_def)
  have "log 2 x < 52" using x by (subst log_less_iff) simp_all
  then have e51: "e \<le> 51" unfolding e_def by linarith
  have ex: "expo x = e"
  proof -
    have "\<bar>x\<bar> = x" using x(1) by simp
    then have "expo x = max e (- 1022)" by (simp only: expo_def e_def)
    then show ?thesis using e0 by simp
  qed
  define k where "k = nat (51 - e)"
  have "of_int e - 52 = - real (Suc k)" using e51 by (simp add: k_def)
  then have "ulp x = 2 powr (- real (Suc k))" by (simp add: ulp_def ex)
  also have "\<dots> = 1 / 2 ^ Suc k" by (rule powr_neg_nat)
  finally have u: "ulp x = 1 / 2 ^ Suc k" .
  have "x / ulp x = of_int (n * 2 ^ k)" unfolding u by (simp add: x_def)
  then have "round_double x = x" by (rule round_double_exact)
  then show ?thesis by (simp add: x_def)
qed

lemma round_double_half_numeral [simp]:
  "2 \<le> (numeral w :: int) \<Longrightarrow> numeral w < (2 ^ 53 :: int)
     \<Longrightarrow> round_double (numeral w / 2) = numeral w / 2"
  using round_double_halves[of "numeral w"] by simp

lemma late_product: "round_double ((1 - 1 / 2 ^ 29) * 30) = (1 - 1 / 2 ^ 29) * 30"
proof (rule round_double_exact)
  have "ulp ((1 - 1 / 2 ^ 29) * 30) = 2 powr (of_int 4 - 52)"
    by (rule ulp_eq) simp_all
  also have "\<dots> = 2 powr (- real 48)" by simp
  finally have u: "ulp ((1 - 1 / 2 ^ 29) * 30) = 1 / 2 ^ 48"
    unfolding powr_neg_nat .
  show "(1 - 1 / 2 ^ 29) * 30 / ulp ((1 - 1 / 2 ^ 29) * 30) = of_int (30 * 2 ^ 48 - 30 * 2 ^ 19)"
    unfolding u by simp
qed

lemma late_sum: "round_double (1700000000 + (1 - 1 / 2 ^ 29) * 30) = 1700000030"
proof -
  let ?s = "1700000000 + (1 - 1 / 2 ^ 29) * 30 :: real"
  have "ulp ?s = 2 powr (of_int 30 - 52)"
    by (rule ulp_eq) simp_all
  also have "\<dots> = 2 powr (- real 22)" by simp
  finally have u: "ulp ?s = 1 / 2 ^ 22"
    unfolding powr_neg_nat .
  have "round_half_even (?s / ulp ?s) = 1700000030 * 2 ^ 22"
    unfolding u by (rule rhe_nearest) simp_all
  then show ?thesis
    unfolding round_double_def u by simp
qed

section \<open>Lemmas about \<open>create_lead\<close>\<close>

lemma random_float_range: "0 \<le> random_float n" "random_float n < 1"
  by (simp_all add: random_float_def)

lemma randint_range: "a \<le> b \<Longrightarrow> a \<le> randint a b n \<and> randint a b n \<le> b"
  unfolding randint_def using pos_mod_sign[of "b - a + 1" "int n"] pos_mod_bound[of "b - a + 1" "int n"]
  by simp

lemma randint_onto: "a \<le> x \<Longrightarrow> x \<le> b \<Longrightarrow> randint a b (nat (x - a)) = x"
  by (simp add: randint_def)

lemma random_float_half [simp]: "random_float half = 1 / 2"
  by (simp add: random_float_def half_def)

lemma random_float_zero [simp]: "random_float 0 = 0"
  by (simp add: random_float_def)

lemma random_float_quarter [simp]: "random_float quarter = 1 / 4"
  by (simp add: random_float_def quarter_def)

lemma random_float_near_one: "random_float near_one = 1 - 1 / 2 ^ 29"
  by (simp add: random_float_def near_one_def)

lemma create_lead_no_row:
  "in_fetchone inp = None \<Longrightarrow>
   create_lead inp c q p =
     (Some RuntimeError,
      c @ [Insert_lead (in_local_part inp @ ''@'' @ in_domain inp @ ''.com'')
             (utm_medium (rand_lead (in_local_part inp) (in_domain inp) (in_medium inp) (in_source inp)))
             (utm_source (rand_lead (in_local_part inp) (in_domain inp) (in_medium inp) (in_source inp)))],
      q, p)"
  by (simp add: create_lead_def Let_def rand_lead_def)

lemma create_lead_null_id:
  "in_fetchone inp = Some None \<Longrightarrow>
   \<exists>c'. create_lead inp c q p = (Some AssertionError, c', q, p)"
  by (simp add: create_lead_def Let_def)

lemma create_lead_row:
  "in_fetchone inp = Some (Some i) \<Longrightarrow>
   create_lead inp c q p =
     (None,
      (if coupon_sent inp i
       then c @ [Insert_lead (email (persisted_lead inp i)) (utm_medium (persisted_lead inp i))
                   (utm_source (persisted_lead inp i)),
                 Insert_coupon (Some i) (randint 500 5000 (in_coupon_amount inp))]
       else c @ [Insert_lead (email (persisted_lead inp i)) (utm_medium (persisted_lead inp i))
                   (utm_source (persisted_lead inp i))]),
      (if lead_converts inp i then PriorityQueue_put q (scheduled_event inp i) else q),
      p @ [\<lparr>p_lead_id = Some i, p_experiment_bucket = experiment_bucket i,
             p_score = lead_score inp,
             p_label = (if lead_score inp > 0.5 then 1 else 0),
             p_predicted_at = in_predicted_at inp\<rparr>])"
  by (simp add: create_lead_def Let_def scheduled_event_def persisted_lead_def lead_score_def
      coupon_sent_def lead_converts_def log_coupon_def log_prediction_def)

lemma create_lead_queue:
  assumes "create_lead inp c q p = (r, c', q', p')"
  shows "q' = q \<or> (\<exists>i. in_fetchone inp = Some (Some i) \<and> r = None
                 \<and> q' = PriorityQueue_put q (scheduled_event inp i))"
proof (cases "in_fetchone inp")
  case None
  then show ?thesis using assms create_lead_no_row[OF None, of c q p] by simp
next
  case (Some row)
  show ?thesis
  proof (cases row)
    case None
    then show ?thesis using assms Some create_lead_null_id[of inp c q p] by auto
  next
    case (Some i)
    then have "in_fetchone inp = Some (Some i)" using \<open>in_fetchone inp = Some row\<close> by simp
    then show ?thesis using assms create_lead_row[of inp i c q p] by (auto split: if_splits)
  qed
qed

lemma scheduled_event_id: "lead_id (lead (scheduled_event inp i)) = Some i"
  by (simp add: scheduled_event_def persisted_lead_def)

section \<open>Lemmas about the two threads\<close>

lemma step_Main_consumer [simp]:
  "conversion_event (step (Main inp) s) = conversion_event s"
  "convert_raised (step (Main inp) s) = convert_raised s"
  "convert_conn (step (Main inp) s) = convert_conn s"
  "convert_slept (step (Main inp) s) = convert_slept s"
  by (auto split: prod.splits option.splits)

lemma run_Main_consumer [simp]:
  "conversion_event (run (map Main inps) s) = conversion_event s"
  "convert_raised (run (map Main inps) s) = convert_raised s"
  "convert_conn (run (map Main inps) s) = convert_conn s"
  "convert_slept (run (map Main inps) s) = convert_slept s"
  by (induction inps arbitrary: s) (simp_all del: step.simps)

lemma finalize_calls_not_early:
  "(now, ev) \<in> set (finalize_calls sched s) \<Longrightarrow> converted_at ev \<le> now + PERIOD"
proof (induction sched s rule: finalize_calls.induct)
  case (1 s)
  then show ?case by simp
next
  case (2 inp as s)
  then show ?case by simp
next
  case (3 t as s)
  show ?case
  proof (cases "(now, ev) \<in> set (finalize_calls as (step (Convert t) s))")
    case True
    then show ?thesis by (rule "3.IH")
  next
    case False
    then have "conversion_event s = Some ev" "now = t"
      "convert_conn (step (Convert t) s) \<noteq> convert_conn s"
      using "3.prems" by (auto split: option.splits if_splits)
    then show ?thesis
      by (auto simp: convert_check_def Let_def split: if_splits)
  qed
qed

declare step.simps [simp del]

lemma convert_conn_finalize_calls:
  "convert_conn (run sched s) =
     convert_conn s @ map (\<lambda>(now, ev). Update_conversion (lead_id (lead ev)) (conversion_amount ev))
                        (finalize_calls sched s)"
proof (induction sched s rule: finalize_calls.induct)
  case (1 s)
  then show ?case by simp
next
  case (2 inp as s)
  then show ?case by simp
next
  case (3 t as s)
  have "convert_conn (step (Convert t) s) =
     convert_conn s @ map (\<lambda>(now, ev). Update_conversion (lead_id (lead ev)) (conversion_amount ev))
       (case conversion_event s of None \<Rightarrow> []
        | Some ev \<Rightarrow> if convert_conn (step (Convert t) s) \<noteq> convert_conn s then [(t, ev)] else [])"
    by (auto simp: step.simps convert_get_def convert_check_def log_conversion_def Let_def
        split: option.splits sum.splits prod.splits)
  then show ?case using "3.IH" by simp
qed

lemma step_heap: "is_heap (queue s) \<Longrightarrow> is_heap (queue (step a s))"
proof (cases a)
  case (Main inp)
  obtain r c' q' p' where cl: "create_lead inp (conn s) (queue s) (producer s) = (r, c', q', p')"
    by (cases "create_lead inp (conn s) (queue s) (producer s)") 
  assume h: "is_heap (queue s)"
  have "is_heap q'"
    using create_lead_queue[OF cl] h by (auto simp: PriorityQueue_put_def heappush_heap)
  then show ?thesis
    using h Main cl by (cases r) (simp_all add: step.simps)
next
  case (Convert now)
  assume h: "is_heap (queue s)"
  show ?thesis
  proof (cases "conversion_event s")
    case None
    show ?thesis
    proof (cases "PriorityQueue_get (queue s)")
      case n: None
      then show ?thesis using h Convert None by (simp add: step.simps convert_get_def)
    next
      case (Some r)
      then obtain q' where "r = Inr (queue s ! 0, q')" "is_heap q'"
        using get_heap[OF h Some] by blast
      then show ?thesis using h Convert None Some by (simp add: step.simps convert_get_def)
    qed
  next
    case (Some ev)
    then show ?thesis
      using h Convert
      by (simp add: step.simps convert_check_def Let_def PriorityQueue_put_def heappush_heap)
  qed
qed

lemma run_heap: "is_heap (queue s) \<Longrightarrow> is_heap (queue (run sched s))"
  by (induction sched arbitrary: s) (simp_all add: step_heap)

lemma run_simulation_heap: "is_heap (queue (run_simulation sched))"
  unfolding run_simulation_def
  by (rule run_heap) (simp add: initial_def is_heap_def)

lemma step_ids: "is_heap (queue s) \<Longrightarrow> ids_set s \<Longrightarrow> ids_set (step a s)"
proof (cases a)
  case (Main inp)
  obtain r c' q' p' where cl: "create_lead inp (conn s) (queue s) (producer s) = (r, c', q', p')"
    by (cases "create_lead inp (conn s) (queue s) (producer s)") 
  assume h: "ids_set s"
  have "\<forall>e \<in> set q'. lead_id (lead e) \<noteq> None"
    using create_lead_queue[OF cl] h
    by (auto simp: ids_set_def PriorityQueue_put_def set_heappush scheduled_event_id)
  then show ?thesis
    using h Main cl by (cases r) (simp_all add: step.simps ids_set_def)
next
  case (Convert now)
  assume hp: "is_heap (queue s)" and h: "ids_set s"
  show ?thesis
  proof (cases "conversion_event s")
    case None
    show ?thesis
    proof (cases "PriorityQueue_get (queue s)")
      case n: None
      then show ?thesis using h Convert None by (simp add: step.simps convert_get_def)
    next
      case (Some r)
      then obtain q' where r: "r = Inr (queue s ! 0, q')"
        and ms: "mset (queue s) = add_mset (queue s ! 0) (mset q')"
        using get_heap[OF hp Some] by blast
      have "set (queue s) = insert (queue s ! 0) (set q')"
        using ms by (metis set_mset_add_mset_insert set_mset_mset)
      then have "ids_set (s\<lparr>queue := q', conversion_event := Some (queue s ! 0)\<rparr>)"
        using h by (simp add: ids_set_def)
      then show ?thesis
        using h Convert None Some r by (auto simp add: step.simps convert_get_def ids_set_def)
    qed
  next
    case (Some ev)
    then show ?thesis
      using h Convert
      by (simp add: step.simps convert_check_def Let_def PriorityQueue_put_def set_heappush ids_set_def)
  qed
qed

lemma run_ids: "is_heap (queue s) \<Longrightarrow> ids_set s \<Longrightarrow> ids_set (run sched s)"
  by (induction sched arbitrary: s) (simp_all add: step_ids step_heap)

lemma run_simulation_ids: "ids_set (run_simulation sched)"
  unfolding run_simulation_def
  by (rule run_ids) (simp_all add: initial_def is_heap_def ids_set_def)

lemma main_stopped_step:
  "main_raised s \<noteq> None \<Longrightarrow>
     main_raised (step a s) = main_raised s \<and> conn (step a s) = conn s
     \<and> producer (step a s) = producer s \<and> main_slept (step a s) = main_slept s"
proof (cases a)
  case (Main inp)
  assume "main_raised s \<noteq> None"
  then show ?thesis using Main by (simp add: step.simps)
next
  case (Convert now)
  show ?thesis
    unfolding Convert
    by (auto simp: step.simps convert_get_def convert_check_def Let_def
        split: option.splits sum.splits prod.splits)
qed

lemma main_stopped_run:
  "main_raised s \<noteq> None \<Longrightarrow>
     main_raised (run sched s) = main_raised s \<and> conn (run sched s) = conn s
     \<and> producer (run sched s) = producer s \<and> main_slept (run sched s) = main_slept s"
proof (induction sched arbitrary: s)
  case Nil
  then show ?case by simp
next
  case (Cons a sched)
  have st: "main_raised (step a s) = main_raised s" "conn (step a s) = conn s"
    "producer (step a s) = producer s" "main_slept (step a s) = main_slept s"
    using main_stopped_step[OF Cons.prems, of a] by simp_all
  then have "main_raised (step a s) \<noteq> None" using Cons.prems by simp
  then show ?case using Cons.IH[of "step a s"] st by simp
qed

lemma step_Convert_main_fields:
  "step (Convert now) (s\<lparr>conn := c, main_raised := m\<rparr>)
     = (step (Convert now) s)\<lparr>conn := c, main_raised := m\<rparr>"
  by (auto simp: step.simps convert_get_def convert_check_def Let_def
      split: option.splits sum.splits prod.splits)

lemma run_after_main_raised:
  "m \<noteq> None \<Longrightarrow>
     run sched (s\<lparr>conn := c, main_raised := m\<rparr>)
       = (run (convert_actions sched) s)\<lparr>conn := c, main_raised := m\<rparr>"
proof (induction sched arbitrary: s rule: convert_actions.induct)
  case 1
  then show ?case by simp
next
  case (2 inp as)
  have "step (Main inp) (s\<lparr>conn := c, main_raised := m\<rparr>) = s\<lparr>conn := c, main_raised := m\<rparr>"
    using "2.prems" by (simp add: step.simps)
  then show ?case using "2.IH"[OF "2.prems"] by simp
next
  case (3 now as)
  show ?case using "3.IH"[OF "3.prems"] by (simp add: step_Convert_main_fields)
qed

section \<open>A sample run\<close>

lemma sample_create_lead:
  assumes "1 < i mod 10" "round_double (t + 15) = t + 15"
  shows "create_lead (sample_inputs (Some (Some i)) half 0 t) c q p =
     (None,
      c @ [Insert_lead ''abcd@xyz.com'' ''email'' ''klaviyo.com'', Insert_coupon (Some i) 507],
      PriorityQueue_put q (sample_event (t + 15) i 1005),
      p @ [\<lparr>p_lead_id = Some i, p_experiment_bucket = ''experiment'', p_score = 0.5,
             p_label = 0, p_predicted_at = t\<rparr>])"
proof -
  let ?inp = "sample_inputs (Some (Some i)) half 0 t"
  have f: "in_fetchone ?inp = Some (Some i)"
    by (simp add: sample_inputs_def)
  have sc: "lead_score ?inp = 0.5"
    by (simp add: lead_score_def sample_inputs_def)
  have eb: "experiment_bucket i = ''experiment''"
    using assms by (simp add: experiment_bucket_def)
  have cs: "coupon_sent ?inp i"
    by (simp add: coupon_sent_def sc eb)
  have lc: "lead_converts ?inp i"
    by (simp add: lead_converts_def sc cs) (simp add: sample_inputs_def)
  have pl: "persisted_lead ?inp i =
     \<lparr>email = ''abcd@xyz.com'', utm_medium = ''email'', utm_source = ''klaviyo.com'',
      lead_id = Some i\<rparr>"
    by (simp add: persisted_lead_def sample_inputs_def rand_lead_def choice_def
        medium_to_sources_def)
  have se: "scheduled_event ?inp i = sample_event (t + 15) i 1005"
    by (simp add: scheduled_event_def pl sample_event_def)
       (simp add: sample_inputs_def randint_def float_add_def float_mul_def assms(2))
  have am: "randint 500 5000 (in_coupon_amount ?inp) = 507"
    by (simp add: sample_inputs_def randint_def)
  have pa: "in_predicted_at ?inp = t"
    by (simp add: sample_inputs_def)
  show ?thesis
    unfolding create_lead_row[OF f] by (simp add: sc cs lc pl se am pa eb)
qed

lemma sample_step:
  assumes "1 < i mod 10" "main_raised s = None" "round_double (t + 15) = t + 15"
  shows "step (Main (sample_inputs (Some (Some i)) half 0 t)) s =
     s\<lparr>queue := PriorityQueue_put (queue s) (sample_event (t + 15) i 1005),
       conn := conn s @ [Insert_lead ''abcd@xyz.com'' ''email'' ''klaviyo.com'',
                         Insert_coupon (Some i) 507],
       producer := producer s @ [\<lparr>p_lead_id = Some i, p_experiment_bucket = ''experiment'',
                                  p_score = 0.5, p_label = 0, p_predicted_at = t\<rparr>],
       main_slept := main_slept s @ [0.01]\<rparr>"
  using assms(2) by (simp add: step.simps sample_create_lead[OF assms(1,3)])

lemma one_lead:
  "run_simulation [Main (sample_inputs (Some (Some 7)) half 0 100)] =
     initial\<lparr>queue := [sample_event 115 7 1005],
       conn := [Insert_lead ''abcd@xyz.com'' ''email'' ''klaviyo.com'', Insert_coupon (Some 7) 507],
       producer := [\<lparr>p_lead_id = Some 7, p_experiment_bucket = ''experiment'',
                      p_score = 0.5, p_label = 0, p_predicted_at = 100\<rparr>],
       main_slept := [0.01]\<rparr>"
proof -
  have "main_raised initial = None" by (simp add: initial_def)
  then show ?thesis
    by (simp add: run_simulation_def sample_step)
       (simp add: initial_def PriorityQueue_put_def heappush_def siftdown_def siftdown_loop_unfold)
qed

lemma one_lead_taken:
  "run_simulation [Main (sample_inputs (Some (Some 7)) half 0 100), Convert 0] =
     initial\<lparr>queue := [],
       conn := [Insert_lead ''abcd@xyz.com'' ''email'' ''klaviyo.com'', Insert_coupon (Some 7) 507],
       producer := [\<lparr>p_lead_id = Some 7, p_experiment_bucket = ''experiment'',
                      p_score = 0.5, p_label = 0, p_predicted_at = 100\<rparr>],
       conversion_event := Some (sample_event 115 7 1005),
       main_slept := [0.01]\<rparr>"
proof -
  have "run_simulation [Main (sample_inputs (Some (Some 7)) half 0 100), Convert 0] =
      step (Convert 0) (run_simulation [Main (sample_inputs (Some (Some 7)) half 0 100)])"
    by (simp add: run_simulation_def)
  then show ?thesis
    unfolding one_lead
    by (simp add: step.simps initial_def convert_get_def PriorityQueue_get_def heappop_def)
qed

lemma two_leads:
  "run_simulation [Main (sample_inputs (Some (Some 7)) half 0 100), Convert 0,
                   Main (sample_inputs (Some (Some 8)) half 0 50)] =
     initial\<lparr>queue := [sample_event 65 8 1005],
       conn := [Insert_lead ''abcd@xyz.com'' ''email'' ''klaviyo.com'', Insert_coupon (Some 7) 507,
                Insert_lead ''abcd@xyz.com'' ''email'' ''klaviyo.com'', Insert_coupon (Some 8) 507],
       producer := [\<lparr>p_lead_id = Some 7, p_experiment_bucket = ''experiment'',
                      p_score = 0.5, p_label = 0, p_predicted_at = 100\<rparr>,
                    \<lparr>p_lead_id = Some 8, p_experiment_bucket = ''experiment'',
                      p_score = 0.5, p_label = 0, p_predicted_at = 50\<rparr>],
       conversion_event := Some (sample_event 115 7 1005),
       main_slept := [0.01, 0.01]\<rparr>"
proof -
  let ?s = "run_simulation [Main (sample_inputs (Some (Some 7)) half 0 100), Convert 0]"
  have m: "main_raised ?s = None" unfolding one_lead_taken by (simp add: initial_def)
  have "run_simulation [Main (sample_inputs (Some (Some 7)) half 0 100), Convert 0,
                   Main (sample_inputs (Some (Some 8)) half 0 50)] =
      step (Main (sample_inputs (Some (Some 8)) half 0 50)) ?s"
    by (simp add: run_simulation_def)
  also have "\<dots> = ?s\<lparr>queue := PriorityQueue_put (queue ?s) (sample_event (50 + 15) 8 1005),
       conn := conn ?s @ [Insert_lead ''abcd@xyz.com'' ''email'' ''klaviyo.com'',
                         Insert_coupon (Some 8) 507],
       producer := producer ?s @ [\<lparr>p_lead_id = Some 8, p_experiment_bucket = ''experiment'',
                                  p_score = 0.5, p_label = 0, p_predicted_at = 50\<rparr>],
       main_slept := main_slept ?s @ [0.01]\<rparr>"
    by (rule sample_step[OF _ m]) simp_all
  finally show ?thesis
    unfolding one_lead_taken
    by (simp add: initial_def PriorityQueue_put_def heappush_def siftdown_def siftdown_loop_unfold)
qed

lemma one_lead_then_second:
  "run (map Main [sample_inputs (Some (Some 8)) half 0 50])
     (step (Convert 0) (run_simulation [Main (sample_inputs (Some (Some 7)) half 0 100)]))
   = run_simulation [Main (sample_inputs (Some (Some 7)) half 0 100), Convert 0,
                     Main (sample_inputs (Some (Some 8)) half 0 50)]"
  by (simp add: run_simulation_def)

lemma one_lead_converted:
  "run [Convert 0, Convert 115] (run_simulation [Main (sample_inputs (Some (Some 7)) half 0 100)])
   = (run_simulation [Main (sample_inputs (Some (Some 7)) half 0 100)])
       \<lparr>queue := [], convert_conn := [Update_conversion (Some 7) 1005]\<rparr>"
proof -
  have 1: "step (Convert 0) (run_simulation [Main (sample_inputs (Some (Some 7)) half 0 100)])
      = run_simulation [Main (sample_inputs (Some (Some 7)) half 0 100), Convert 0]"
    by (simp add: run_simulation_def)
  show ?thesis
    unfolding run.simps 1 unfolding one_lead_taken one_lead
    by (simp add: step.simps initial_def convert_check_def PERIOD_def log_conversion_def
        sample_event_def)
qed

lemma delayed_create_lead:
  assumes "1 < i mod 10" "float_add t (float_mul (random_float d) 30) = t'"
  shows "create_lead (delayed_inputs i t d) c q p =
     (None,
      c @ [Insert_lead ''abcd@xyz.com'' ''email'' ''klaviyo.com'', Insert_coupon (Some i) 507],
      PriorityQueue_put q (sample_event t' i 1005),
      p @ [\<lparr>p_lead_id = Some i, p_experiment_bucket = ''experiment'', p_score = 0.5,
             p_label = 0, p_predicted_at = t\<rparr>])"
proof -
  let ?inp = "delayed_inputs i t d"
  have f: "in_fetchone ?inp = Some (Some i)"
    by (simp add: delayed_inputs_def sample_inputs_def)
  have sc: "lead_score ?inp = 0.5"
    by (simp add: lead_score_def delayed_inputs_def sample_inputs_def)
  have eb: "experiment_bucket i = ''experiment''"
    using assms by (simp add: experiment_bucket_def)
  have cs: "coupon_sent ?inp i"
    by (simp add: coupon_sent_def sc eb)
  have lc: "lead_converts ?inp i"
    by (simp add: lead_converts_def sc cs) (simp add: delayed_inputs_def sample_inputs_def)
  have pl: "persisted_lead ?inp i =
     \<lparr>email = ''abcd@xyz.com'', utm_medium = ''email'', utm_source = ''klaviyo.com'',
      lead_id = Some i\<rparr>"
    by (simp add: persisted_lead_def delayed_inputs_def sample_inputs_def rand_lead_def choice_def
        medium_to_sources_def)
  have it: "in_time ?inp = t" "in_delay ?inp = d"
    by (simp_all add: delayed_inputs_def sample_inputs_def)
  have se: "scheduled_event ?inp i = sample_event t' i 1005"
    unfolding scheduled_event_def pl it assms(2)
    by (simp add: sample_event_def delayed_inputs_def sample_inputs_def randint_def)
  have am: "randint 500 5000 (in_coupon_amount ?inp) = 507"
    by (simp add: delayed_inputs_def sample_inputs_def randint_def)
  have pa: "in_predicted_at ?inp = t"
    by (simp add: delayed_inputs_def sample_inputs_def)
  show ?thesis
    unfolding create_lead_row[OF f] by (simp add: sc cs lc pl se am pa eb)
qed

lemma delayed_step:
  assumes "1 < i mod 10" "main_raised s = None"
    "float_add t (float_mul (random_float d) 30) = t'"
  shows "queue (step (Main (delayed_inputs i t d)) s)
           = PriorityQueue_put (queue s) (sample_event t' i 1005)"
    and "main_raised (step (Main (delayed_inputs i t d)) s) = None"
  using assms(2) by (simp_all add: step.simps delayed_create_lead[OF assms(1,3)])

lemma swap_schedule_state:
  "queue (run_simulation swap_schedule)
     = [sample_event 101 12 1005, sample_event 109 13 1005, sample_event 109 14 1005]"
  "conversion_event (run_simulation swap_schedule) = Some (sample_event 115 7 1005)"
  "convert_raised (run_simulation swap_schedule) = None"
proof -
  let ?s1 = "step (Convert 100) (run_simulation [Main (sample_inputs (Some (Some 7)) half 0 100)])"
  let ?s2 = "step (Main (delayed_inputs 12 101 0)) ?s1"
  let ?s3 = "step (Main (delayed_inputs 13 (203 / 2) quarter)) ?s2"
  let ?s4 = "step (Main (delayed_inputs 14 109 0)) ?s3"
  have r: "run_simulation swap_schedule = ?s4"
    by (simp add: run_simulation_def swap_schedule_def)
  have s1: "queue ?s1 = []" "conversion_event ?s1 = Some (sample_event 115 7 1005)"
    "convert_raised ?s1 = None" "main_raised ?s1 = None"
    unfolding one_lead
    by (simp_all add: step.simps initial_def convert_get_def PriorityQueue_get_def heappop_def)
  have t2: "float_add 101 (float_mul (random_float 0) 30) = 101"
    by (simp add: float_add_def float_mul_def)
  have t3: "float_add (203 / 2) (float_mul (random_float quarter) 30) = 109"
    by (simp add: float_add_def float_mul_def)
  have t4: "float_add 109 (float_mul (random_float 0) 30) = 109"
    by (simp add: float_add_def float_mul_def)
  have i: "1 < (12::int) mod 10" "1 < (13::int) mod 10" "1 < (14::int) mod 10"
    by simp_all
  have s2: "queue ?s2 = [sample_event 101 12 1005]" "main_raised ?s2 = None"
    unfolding delayed_step[OF i(1) s1(4) t2] s1(1) by (simp_all add: queue_eval)
  have s3: "queue ?s3 = [sample_event 101 12 1005, sample_event 109 13 1005]"
    "main_raised ?s3 = None"
    unfolding delayed_step[OF i(2) s2(2) t3] s2(1) by (simp_all add: queue_eval)
  have s4: "queue ?s4 = [sample_event 101 12 1005, sample_event 109 13 1005,
      sample_event 109 14 1005]"
    unfolding delayed_step[OF i(3) s3(2) t4] s3(1) by (simp_all add: queue_eval)
  show "queue (run_simulation swap_schedule)
     = [sample_event 101 12 1005, sample_event 109 13 1005, sample_event 109 14 1005]"
    unfolding r by (rule s4)
  show "conversion_event (run_simulation swap_schedule) = Some (sample_event 115 7 1005)"
    unfolding r by (simp add: s1)
  show "convert_raised (run_simulation swap_schedule) = None"
    unfolding r by (simp add: s1)
qed

lemma late_create_lead:
  "create_lead late_inputs [] [] [] =
     (None,
      [Insert_lead ''abcd@xyz.com'' ''email'' ''klaviyo.com'', Insert_coupon (Some 7) 507],
      [sample_event 1700000030 7 1005],
      [\<lparr>p_lead_id = Some 7, p_experiment_bucket = ''experiment'', p_score = 0.5,
         p_label = 0, p_predicted_at = 1700000000\<rparr>])"
proof -
  have f: "in_fetchone late_inputs = Some (Some 7)"
    by (simp add: late_inputs_def sample_inputs_def)
  have sc: "lead_score late_inputs = 0.5"
    by (simp add: lead_score_def late_inputs_def sample_inputs_def)
  have eb: "experiment_bucket 7 = ''experiment''"
    by (simp add: experiment_bucket_def)
  have cs: "coupon_sent late_inputs 7"
    by (simp add: coupon_sent_def sc eb)
  have lc: "lead_converts late_inputs 7"
    by (simp add: lead_converts_def sc cs) (simp add: late_inputs_def sample_inputs_def)
  have pl: "persisted_lead late_inputs 7 =
     \<lparr>email = ''abcd@xyz.com'', utm_medium = ''email'', utm_source = ''klaviyo.com'',
      lead_id = Some 7\<rparr>"
    by (simp add: persisted_lead_def late_inputs_def sample_inputs_def rand_lead_def choice_def
        medium_to_sources_def)
  have ts: "float_add (in_time late_inputs) (float_mul (random_float (in_delay late_inputs)) 30)
      = 1700000030"
  proof -
    have it: "in_time late_inputs = 1700000000" "in_delay late_inputs = near_one"
      by (simp_all add: late_inputs_def sample_inputs_def)
    show ?thesis
      unfolding it float_add_def float_mul_def random_float_near_one late_product late_sum ..
  qed
  have se: "scheduled_event late_inputs 7 = sample_event 1700000030 7 1005"
    unfolding scheduled_event_def ts pl
    by (simp add: sample_event_def late_inputs_def sample_inputs_def randint_def)
  have am: "randint 500 5000 (in_coupon_amount late_inputs) = 507"
    by (simp add: late_inputs_def sample_inputs_def randint_def)
  have pa: "in_predicted_at late_inputs = 1700000000"
    by (simp add: late_inputs_def sample_inputs_def)
  show ?thesis
    unfolding create_lead_row[OF f]
    by (simp add: sc cs lc pl se am pa eb PriorityQueue_put_def heappush_def siftdown_def
        siftdown_loop_unfold)
qed

section \<open>Properties\<close>

text \<open>
  Claim C1. One round of the loop of \<open>convert\<close>. Let the consumer be at the head of its
  loop and let \<open>queue.get()\<close> return the event \<open>ev\<close>; the main thread may then run any
  number of rounds. Whatever value \<open>now\<close> the clock gives, the rest of the round
  computes \<open>converted_at ev - now\<close>. If that exceeds 0.05 it puts \<open>ev\<close> back on the
  queue, sleeps for 0.05 and is back at the head of the loop: the queue then holds what
  it held plus \<open>ev\<close>, one item more, and no statement is executed. Otherwise it
  executes exactly one statement, the update of the conversion with the identifier of
  the lead of \<open>ev\<close> and the conversion amount of \<open>ev\<close>; it leaves the queue as it is
  and does not sleep.
\<close>

theorem scheduler_loop_iteration:
  assumes "convert_raised s = None" "conversion_event s = None"
    and "PriorityQueue_get (queue s) = Some (Inr (ev, q))"
    and "s1 = step (Convert t) s"
    and "s2 = run (map Main inps) s1"
  shows "s1 = s\<lparr>queue := q, conversion_event := Some ev\<rparr>
    \<and> step (Convert now) s2 =
       (if converted_at ev - now > 0.05
        then s2\<lparr>queue := PriorityQueue_put (queue s2) ev,
                convert_slept := convert_slept s2 @ [0.05],
                conversion_event := None\<rparr>
        else s2\<lparr>convert_conn :=
                  convert_conn s2 @ [Update_conversion (lead_id (lead ev)) (conversion_amount ev)],
                conversion_event := None\<rparr>)
    \<and> (converted_at ev - now > 0.05 \<longrightarrow>
          mset (queue (step (Convert now) s2)) = add_mset ev (mset (queue s2))
          \<and> length (queue (step (Convert now) s2)) = Suc (length (queue s2))
          \<and> convert_conn (step (Convert now) s2) = convert_conn s2)
    \<and> (\<not> converted_at ev - now > 0.05 \<longrightarrow>
          queue (step (Convert now) s2) = queue s2
          \<and> convert_slept (step (Convert now) s2) = convert_slept s2)"
proof -
  have s1: "s1 = s\<lparr>queue := q, conversion_event := Some ev\<rparr>"
    using assms(1-4) by (simp add: step.simps convert_get_def)
  then have "conversion_event s2 = Some ev" "convert_raised s2 = None"
    using assms(1,5) by simp_all
  then have st: "step (Convert now) s2 =
       (if converted_at ev - now > 0.05
        then s2\<lparr>queue := PriorityQueue_put (queue s2) ev,
                convert_slept := convert_slept s2 @ [0.05],
                conversion_event := None\<rparr>
        else s2\<lparr>convert_conn :=
                  convert_conn s2 @ [Update_conversion (lead_id (lead ev)) (conversion_amount ev)],
                conversion_event := None\<rparr>)"
    by (simp add: step.simps convert_check_def PERIOD_def log_conversion_def)
  have put: "mset (queue (step (Convert now) s2)) = add_mset ev (mset (queue s2))
          \<and> length (queue (step (Convert now) s2)) = Suc (length (queue s2))
          \<and> convert_conn (step (Convert now) s2) = convert_conn s2"
    if "converted_at ev - now > 0.05"
    unfolding st using that by (simp add: PriorityQueue_put_def heappush_mset)
  have fin: "queue (step (Convert now) s2) = queue s2
          \<and> convert_slept (step (Convert now) s2) = convert_slept s2"
    if "\<not> converted_at ev - now > 0.05"
    unfolding st using that by simp
  show ?thesis using s1 st put fin by blast
qed

text \<open>
  Lead 7 converts at 115. \<open>convert\<close> takes its event, and a second lead is created
  whose event is due at 65. Checked at 60, the event of lead 7 goes back on the queue,
  behind the other one, and the consumer sleeps; checked at 115 instead, the
  conversion is written and the queue keeps the other event.
\<close>

theorem scheduler_loop_iteration_witness:
  "PriorityQueue_get (queue (run_simulation [Main (sample_inputs (Some (Some 7)) half 0 100)]))
     = Some (Inr (sample_event 115 7 1005, []))
   \<and> queue (run_simulation [Main (sample_inputs (Some (Some 7)) half 0 100), Convert 0,
                            Main (sample_inputs (Some (Some 8)) half 0 50)])
       = [sample_event 65 8 1005]
   \<and> queue (step (Convert 60)
        (run_simulation [Main (sample_inputs (Some (Some 7)) half 0 100), Convert 0,
                         Main (sample_inputs (Some (Some 8)) half 0 50)]))
       = [sample_event 65 8 1005, sample_event 115 7 1005]
   \<and> convert_slept (step (Convert 60)
        (run_simulation [Main (sample_inputs (Some (Some 7)) half 0 100), Convert 0,
                         Main (sample_inputs (Some (Some 8)) half 0 50)])) = [0.05]
   \<and> convert_conn (step (Convert 115)
        (run_simulation [Main (sample_inputs (Some (Some 7)) half 0 100), Convert 0,
                         Main (sample_inputs (Some (Some 8)) half 0 50)]))
       = [Update_conversion (Some 7) 1005]
   \<and> queue (step (Convert 115)
        (run_simulation [Main (sample_inputs (Some (Some 7)) half 0 100), Convert 0,
                         Main (sample_inputs (Some (Some 8)) half 0 50)]))
       = [sample_event 65 8 1005]"
proof -
  let ?s = "run_simulation [Main (sample_inputs (Some (Some 7)) half 0 100)]"
  let ?s2 = "run_simulation [Main (sample_inputs (Some (Some 7)) half 0 100), Convert 0,
                         Main (sample_inputs (Some (Some 8)) half 0 50)]"
  have s: "convert_raised ?s = None" "conversion_event ?s = None"
    "PriorityQueue_get (queue ?s) = Some (Inr (sample_event 115 7 1005, []))"
    by (simp_all add: one_lead initial_def PriorityQueue_get_def heappop_def)
  note it = scheduler_loop_iteration [OF s refl one_lead_then_second [symmetric]]
  have gt: "converted_at (sample_event 115 7 1005) - 60 > (0.05::real)"
    by (simp add: sample_event_def)
  have le: "\<not> converted_at (sample_event 115 7 1005) - 115 > (0.05::real)"
    by (simp add: sample_event_def)
  have q2: "queue ?s2 = [sample_event 65 8 1005]" "convert_slept ?s2 = []"
    "convert_conn ?s2 = []"
    unfolding two_leads by (simp_all add: initial_def)
  have s3: "step (Convert 60) ?s2 =
     ?s2\<lparr>queue := PriorityQueue_put (queue ?s2) (sample_event 115 7 1005),
        convert_slept := convert_slept ?s2 @ [0.05],
        conversion_event := None\<rparr>"
    using it [of 60, THEN conjunct2, THEN conjunct1] unfolding if_P [OF gt] .
  have s4: "step (Convert 115) ?s2 =
     ?s2\<lparr>convert_conn := convert_conn ?s2
          @ [Update_conversion (lead_id (lead (sample_event 115 7 1005)))
               (conversion_amount (sample_event 115 7 1005))],
        conversion_event := None\<rparr>"
    using it [of 115, THEN conjunct2, THEN conjunct1] unfolding if_not_P [OF le] .
  have 1: "queue (step (Convert 60) ?s2) = [sample_event 65 8 1005, sample_event 115 7 1005]
    \<and> convert_slept (step (Convert 60) ?s2) = [0.05]"
    unfolding s3 by (simp add: q2 queue_eval)
  have 2: "convert_conn (step (Convert 115) ?s2) = [Update_conversion (Some 7) 1005]
    \<and> queue (step (Convert 115) ?s2) = [sample_event 65 8 1005]"
    unfolding s4 by (simp add: q2) (simp add: sample_event_def)
  show ?thesis using s(3) q2(1) 1 2 by blast
qed

text \<open>
  Claim C2. No early fire: along every schedule, from every state, whenever a step of
  \<open>convert\<close> finalizes an event, the fire timestamp of the event is at most 0.05 above
  the clock value read in that step. The finalize calls listed are all the statements
  \<open>convert\<close> executes: its connection grows by exactly one update per call.
\<close>

theorem no_early_finalize:
  assumes "(now, ev) \<in> set (finalize_calls sched s)"
  shows "converted_at ev \<le> now + 0.05
    \<and> Update_conversion (lead_id (lead ev)) (conversion_amount ev)
        \<in> set (convert_conn (run sched s))
    \<and> convert_conn (run sched s) =
        convert_conn s @ map (\<lambda>(now, ev). Update_conversion (lead_id (lead ev)) (conversion_amount ev))
                           (finalize_calls sched s)"
proof -
  have 1: "converted_at ev \<le> now + 0.05"
    using finalize_calls_not_early[OF assms] by (simp add: PERIOD_def)
  have 3: "convert_conn (run sched s) =
        convert_conn s @ map (\<lambda>(now, ev). Update_conversion (lead_id (lead ev)) (conversion_amount ev))
                           (finalize_calls sched s)"
    by (rule convert_conn_finalize_calls)
  have "(\<lambda>(now, ev). Update_conversion (lead_id (lead ev)) (conversion_amount ev)) (now, ev)
      \<in> set (map (\<lambda>(now, ev). Update_conversion (lead_id (lead ev)) (conversion_amount ev))
                           (finalize_calls sched s))"
    unfolding set_map using assms by (rule imageI)
  then have 2: "Update_conversion (lead_id (lead ev)) (conversion_amount ev)
        \<in> set (convert_conn (run sched s))"
    unfolding 3 by simp
  show ?thesis using 1 2 3 by blast
qed

theorem no_early_finalize_witness:
  "(115, sample_event 115 7 1005)
     \<in> set (finalize_calls [Convert 115]
              (run_simulation [Main (sample_inputs (Some (Some 7)) half 0 100), Convert 0]))
   \<and> converted_at (sample_event 115 7 1005) \<le> 115 + 0.05
   \<and> convert_conn (run [Convert 115]
        (run_simulation [Main (sample_inputs (Some (Some 7)) half 0 100), Convert 0]))
      = [Update_conversion (Some 7) 1005]"
proof -
  let ?s = "run_simulation [Main (sample_inputs (Some (Some 7)) half 0 100), Convert 0]"
  have st: "convert_conn (step (Convert 115) ?s) = [Update_conversion (Some 7) 1005]"
    unfolding one_lead_taken
    by (simp add: step.simps initial_def convert_check_def PERIOD_def log_conversion_def
        sample_event_def)
  have s: "conversion_event ?s = Some (sample_event 115 7 1005)" "convert_conn ?s = []"
    unfolding one_lead_taken by (simp_all add: initial_def)
  have fc: "finalize_calls [Convert 115] ?s = [(115, sample_event 115 7 1005)]"
    by (simp add: s st)
  then have mem: "(115, sample_event 115 7 1005)
     \<in> set (finalize_calls [Convert 115] ?s)"
    by simp
  have "converted_at (sample_event 115 7 1005) \<le> 115 + 0.05
    \<and> convert_conn (run [Convert 115] ?s) =
        convert_conn ?s @ map (\<lambda>(now, ev). Update_conversion (lead_id (lead ev)) (conversion_amount ev))
                           (finalize_calls [Convert 115] ?s)"
    using no_early_finalize [OF mem] by blast
  then have "converted_at (sample_event 115 7 1005) \<le> 115 + 0.05
    \<and> convert_conn (run [Convert 115] ?s) = [Update_conversion (Some 7) 1005]"
    unfolding fc s by (simp add: sample_event_def)
  then show ?thesis using mem by blast
qed

text \<open>
  Claim C3. Ordering invariant of the queue: start from the empty queue and apply any
  sequence of inserts and take-earliest calls. Every take-earliest that returns gives
  an event whose fire timestamp is at most the fire timestamp of every event that is in
  the queue right after the call. No event is lost and none is made up: the events
  returned and the events in the queue at the end are together the events inserted. A
  take-earliest on the empty queue waits. On a queue that is not empty it returns: it
  gives one event of the queue, leaves the others in the queue, and none of them has a
  smaller fire timestamp.
\<close>

theorem take_earliest_returns_minimum:
  "(\<forall>e q' x. (e, q') \<in> set (run_ops ops []) \<and> x \<in> set q'
       \<longrightarrow> converted_at e \<le> converted_at x)
   \<and> mset (map fst (run_ops ops [])) + mset (queue_after ops []) = mset (inserted ops)
   \<and> (queue_after ops [] = [] \<longrightarrow> PriorityQueue_get (queue_after ops []) = None)
   \<and> (queue_after ops [] \<noteq> [] \<longrightarrow>
        (\<exists>e q'. PriorityQueue_get (queue_after ops []) = Some (Inr (e, q'))
            \<and> mset (queue_after ops []) = add_mset e (mset q')
            \<and> (\<forall>x \<in> set q'. converted_at e \<le> converted_at x)))"
proof -
  have h0: "is_heap []" by (simp add: is_heap_def)
  have 1: "converted_at e \<le> converted_at x"
    if "(e, q') \<in> set (run_ops ops [])" "x \<in> set q'" for e q' x
    using run_ops_minimum[OF h0 that] .
  have 2: "is_heap (queue_after ops [])"
    "mset (map fst (run_ops ops [])) + mset (queue_after ops []) = mset (inserted ops)"
    using run_ops_conserves[OF h0, of ops] by simp_all
  have 3: "PriorityQueue_get (queue_after ops []) = None" if "queue_after ops [] = []"
    using that by (simp add: PriorityQueue_get_def)
  have 4: "\<exists>e q'. PriorityQueue_get (queue_after ops []) = Some (Inr (e, q'))
            \<and> mset (queue_after ops []) = add_mset e (mset q')
            \<and> (\<forall>x \<in> set q'. converted_at e \<le> converted_at x)"
    if "queue_after ops [] \<noteq> []"
    using get_nonempty[OF 2(1) that] by blast
  show ?thesis using 1 2(2) 3 4 by blast
qed

text \<open>
  The scenario of the specification: events due in 1 s, 0.02 s and 5 s are inserted in
  that order. The first take returns the one due in 0.02 s and leaves the other two,
  the second returns the one due in 1 s, and a third would return the one due in 5 s.
\<close>

theorem take_earliest_returns_minimum_witness:
  "run_ops [Insert (sample_event 1 1 1000), Insert (sample_event 0.02 2 1000),
            Insert (sample_event 5 3 1000), Take_earliest, Take_earliest] []
     = [(sample_event 0.02 2 1000, [sample_event 1 1 1000, sample_event 5 3 1000]),
        (sample_event 1 1 1000, [sample_event 5 3 1000])]
   \<and> queue_after [Insert (sample_event 1 1 1000), Insert (sample_event 0.02 2 1000),
            Insert (sample_event 5 3 1000), Take_earliest, Take_earliest] []
     = [sample_event 5 3 1000]
   \<and> converted_at (sample_event 0.02 2 1000) \<le> converted_at (sample_event 5 3 1000)
   \<and> (\<exists>e q'. PriorityQueue_get [sample_event 5 3 1000] = Some (Inr (e, q'))
          \<and> mset [sample_event 5 3 1000] = add_mset e (mset q'))"
proof -
  let ?ops = "[Insert (sample_event 1 1 1000), Insert (sample_event 0.02 2 1000),
            Insert (sample_event 5 3 1000), Take_earliest, Take_earliest]"
  have run: "run_ops ?ops []
     = [(sample_event 0.02 2 1000, [sample_event 1 1 1000, sample_event 5 3 1000]),
        (sample_event 1 1 1000, [sample_event 5 3 1000])]"
    by (simp add: queue_eval)
  have after: "queue_after ?ops [] = [sample_event 5 3 1000]"
    by (simp add: queue_eval)
  note th = take_earliest_returns_minimum [of ?ops]
  have mem: "(sample_event 0.02 2 1000, [sample_event 1 1 1000, sample_event 5 3 1000])
       \<in> set (run_ops ?ops [])
     \<and> sample_event 5 3 1000 \<in> set [sample_event 1 1 1000, sample_event 5 3 1000]"
    unfolding run by simp
  have 1: "converted_at (sample_event 0.02 2 1000) \<le> converted_at (sample_event 5 3 1000)"
    using th mem by blast
  have ne: "queue_after ?ops [] \<noteq> []" unfolding after by simp
  have "\<exists>e q'. PriorityQueue_get (queue_after ?ops []) = Some (Inr (e, q'))
          \<and> mset (queue_after ?ops []) = add_mset e (mset q')"
    using th ne by blast
  then have 2: "\<exists>e q'. PriorityQueue_get [sample_event 5 3 1000] = Some (Inr (e, q'))
          \<and> mset [sample_event 5 3 1000] = add_mset e (mset q')"
    unfolding after .
  show ?thesis using run after 1 2 by blast
qed

text \<open>
  Claim C4, as amended. When \<open>fetchone\<close> returns no row, \<open>create_lead\<close> raises
  \<open>RuntimeError\<close> right after the insert statement: nothing is published, no coupon is
  written and nothing is put on the queue in that round. \<open>run_simulation\<close> does not
  catch the exception, so the main thread ends there: whatever the schedule goes on
  with, no further round of the producer loop runs (its connection, its producer and
  its sleeps stay as they are). The thread of \<open>convert\<close> keeps running: the program
  ends in the state that the steps of \<open>convert\<close> in the rest of the schedule, run one
  after the other from the state before the failed round, lead to, with the insert
  statement and the exception of the main thread added.
\<close>

theorem no_row_ends_main_thread:
  assumes "main_raised s = None" "in_fetchone inp = None"
  shows "step (Main inp) s =
           s\<lparr>conn := conn s @ [Insert_lead (in_local_part inp @ ''@'' @ in_domain inp @ ''.com'')
                 (utm_medium (rand_lead (in_local_part inp) (in_domain inp) (in_medium inp) (in_source inp)))
                 (utm_source (rand_lead (in_local_part inp) (in_domain inp) (in_medium inp) (in_source inp)))],
              main_raised := Some RuntimeError\<rparr>
    \<and> main_raised (run (Main inp # sched) s) = Some RuntimeError
    \<and> conn (run (Main inp # sched) s) = conn (step (Main inp) s)
    \<and> producer (run (Main inp # sched) s) = producer s
    \<and> main_slept (run (Main inp # sched) s) = main_slept s
    \<and> run (Main inp # sched) s =
        (run (convert_actions sched) s)
          \<lparr>conn := conn s @ [Insert_lead (in_local_part inp @ ''@'' @ in_domain inp @ ''.com'')
                 (utm_medium (rand_lead (in_local_part inp) (in_domain inp) (in_medium inp) (in_source inp)))
                 (utm_source (rand_lead (in_local_part inp) (in_domain inp) (in_medium inp) (in_source inp)))],
           main_raised := Some RuntimeError\<rparr>
    \<and> queue (run (Main inp # sched) s) = queue (run (convert_actions sched) s)
    \<and> convert_conn (run (Main inp # sched) s) = convert_conn (run (convert_actions sched) s)
    \<and> convert_slept (run (Main inp # sched) s) = convert_slept (run (convert_actions sched) s)
    \<and> conversion_event (run (Main inp # sched) s)
        = conversion_event (run (convert_actions sched) s)
    \<and> convert_raised (run (Main inp # sched) s) = convert_raised (run (convert_actions sched) s)"
proof -
  let ?c = "conn s @ [Insert_lead (in_local_part inp @ ''@'' @ in_domain inp @ ''.com'')
                 (utm_medium (rand_lead (in_local_part inp) (in_domain inp) (in_medium inp) (in_source inp)))
                 (utm_source (rand_lead (in_local_part inp) (in_domain inp) (in_medium inp) (in_source inp)))]"
  have st: "step (Main inp) s = s\<lparr>conn := ?c, main_raised := Some RuntimeError\<rparr>"
    using assms by (simp add: step.simps create_lead_no_row)
  then have "main_raised (step (Main inp) s) \<noteq> None" by simp
  note stopped = main_stopped_run[OF this, of sched]
  have "run (Main inp # sched) s = run sched (s\<lparr>conn := ?c, main_raised := Some RuntimeError\<rparr>)"
    by (simp add: st)
  also have "\<dots> = (run (convert_actions sched) s)\<lparr>conn := ?c, main_raised := Some RuntimeError\<rparr>"
    by (rule run_after_main_raised) simp
  finally have r: "run (Main inp # sched) s
      = (run (convert_actions sched) s)\<lparr>conn := ?c, main_raised := Some RuntimeError\<rparr>" .
  have f: "queue (run (Main inp # sched) s) = queue (run (convert_actions sched) s)"
    "convert_conn (run (Main inp # sched) s) = convert_conn (run (convert_actions sched) s)"
    "convert_slept (run (Main inp # sched) s) = convert_slept (run (convert_actions sched) s)"
    "conversion_event (run (Main inp # sched) s)
        = conversion_event (run (convert_actions sched) s)"
    "convert_raised (run (Main inp # sched) s) = convert_raised (run (convert_actions sched) s)"
    unfolding r by simp_all
  have m: "main_raised (run (Main inp # sched) s) = Some RuntimeError"
    "conn (run (Main inp # sched) s) = conn (step (Main inp) s)"
    "producer (run (Main inp # sched) s) = producer s"
    "main_slept (run (Main inp # sched) s) = main_slept s"
    using stopped st by simp_all
  show ?thesis using st m r f by blast
qed

text \<open>
  Lead 7 has been created and its event is due at 115. The next round gets no row.
  After that \<open>convert\<close> takes the event and, at 115, writes the conversion, while the
  round for a lead 8 that the schedule asks for does not run.
\<close>

theorem no_row_ends_main_thread_witness:
  "main_raised (run_simulation [Main (sample_inputs (Some (Some 7)) half 0 100)]) = None
   \<and> in_fetchone (sample_inputs None half 0 101) = None
   \<and> run (Main (sample_inputs None half 0 101)
        # [Convert 0, Main (sample_inputs (Some (Some 8)) half 0 102), Convert 115])
        (run_simulation [Main (sample_inputs (Some (Some 7)) half 0 100)])
     = initial\<lparr>queue := [],
         conn := [Insert_lead ''abcd@xyz.com'' ''email'' ''klaviyo.com'', Insert_coupon (Some 7) 507,
                  Insert_lead ''abcd@xyz.com'' ''email'' ''klaviyo.com''],
         producer := [\<lparr>p_lead_id = Some 7, p_experiment_bucket = ''experiment'',
                        p_score = 0.5, p_label = 0, p_predicted_at = 100\<rparr>],
         convert_conn := [Update_conversion (Some 7) 1005],
         main_slept := [0.01],
         main_raised := Some RuntimeError\<rparr>"
proof -
  let ?s = "run_simulation [Main (sample_inputs (Some (Some 7)) half 0 100)]"
  have m: "main_raised ?s = None" unfolding one_lead by (simp add: initial_def)
  have f: "in_fetchone (sample_inputs None half 0 101) = None" by (simp add: sample_inputs_def)
  have ca: "convert_actions [Convert 0, Main (sample_inputs (Some (Some 8)) half 0 102), Convert 115]
      = [Convert 0, Convert 115]"
    by simp
  note th = no_row_ends_main_thread [OF m f,
      of "[Convert 0, Main (sample_inputs (Some (Some 8)) half 0 102), Convert 115]",
      THEN conjunct2, THEN conjunct2, THEN conjunct2, THEN conjunct2, THEN conjunct2,
      THEN conjunct1, unfolded ca one_lead_converted]
  have "run (Main (sample_inputs None half 0 101)
        # [Convert 0, Main (sample_inputs (Some (Some 8)) half 0 102), Convert 115]) ?s
     = initial\<lparr>queue := [],
         conn := [Insert_lead ''abcd@xyz.com'' ''email'' ''klaviyo.com'', Insert_coupon (Some 7) 507,
                  Insert_lead ''abcd@xyz.com'' ''email'' ''klaviyo.com''],
         producer := [\<lparr>p_lead_id = Some 7, p_experiment_bucket = ''experiment'',
                        p_score = 0.5, p_label = 0, p_predicted_at = 100\<rparr>],
         convert_conn := [Update_conversion (Some 7) 1005],
         main_slept := [0.01],
         main_raised := Some RuntimeError\<rparr>"
    unfolding th unfolding one_lead
    by (simp add: initial_def sample_inputs_def rand_lead_def choice_def medium_to_sources_def)
  then show ?thesis using m f by blast
qed

text \<open>
  The claim as stated (the producer loop continues with the next round) fails: after a
  round without a row, a second round whose insert would return the identifier 7
  leaves no trace in the final state.
\<close>

theorem producer_loop_does_not_continue:
  "run_simulation [Main (sample_inputs None half 0 50),
                   Main (sample_inputs (Some (Some 7)) half 0 100)]
   = initial\<lparr>conn := [Insert_lead ''abcd@xyz.com'' ''email'' ''klaviyo.com''],
             main_raised := Some RuntimeError\<rparr>"
proof -
  have f: "in_fetchone (sample_inputs None half 0 50) = None" by (simp add: sample_inputs_def)
  have "step (Main (sample_inputs None half 0 50)) initial
     = initial\<lparr>conn := [Insert_lead ''abcd@xyz.com'' ''email'' ''klaviyo.com''],
             main_raised := Some RuntimeError\<rparr>"
    by (simp add: step.simps create_lead_no_row[OF f])
       (simp add: initial_def sample_inputs_def rand_lead_def choice_def medium_to_sources_def)
  then show ?thesis
    by (simp add: run_simulation_def step.simps)
qed

text \<open>
  Claim C5, as amended. Requeue preserves the content, and the order of events with
  different timestamps. In any reachable state in which \<open>convert\<close> holds an event
  \<open>ev\<close> that is not yet due, the check puts back \<open>ev\<close> itself (timestamp, lead and
  amount unchanged): the queue holds what it held plus \<open>ev\<close>, and nothing is
  finalized. Every other pending event whose timestamp is not greater than that of
  \<open>ev\<close> (so every one with a strictly smaller timestamp) stays at the position it had
  in the queue. If an event with a strictly smaller timestamp is pending, the next
  \<open>get\<close> returns an event with a strictly smaller timestamp and leaves \<open>ev\<close> in the
  queue. Taking the events off the queue one after the other returns all of them,
  \<open>ev\<close> included, in the order of their timestamps. Of two other pending events with
  different timestamps, the earlier one is returned before the later one, as it was
  without the requeue, and every pending event with a strictly smaller timestamp is
  returned before \<open>ev\<close>. The order in which two other pending events with the same
  timestamp are returned is not preserved.
\<close>

theorem requeue_preserves_content_and_order:
  assumes s: "s = run_simulation sched"
    and ev: "conversion_event s = Some ev" "convert_raised s = None"
    and wait: "converted_at ev - now > PERIOD"
    and s': "s' = step (Convert now) s"
  shows "mset (queue s') = add_mset ev (mset (queue s))
    \<and> conversion_event s' = None
    \<and> convert_conn s' = convert_conn s
    \<and> (\<forall>i < length (queue s). converted_at (queue s ! i) \<le> converted_at ev
           \<longrightarrow> queue s' ! i = queue s ! i)
    \<and> (\<forall>x \<in> set (queue s). converted_at x < converted_at ev
           \<longrightarrow> (\<exists>e q. PriorityQueue_get (queue s') = Some (Inr (e, q))
                    \<and> converted_at e < converted_at ev \<and> ev \<in> set q))
    \<and> sorted (map converted_at
          (map fst (run_ops (replicate (length (queue s')) Take_earliest) (queue s'))))
    \<and> mset (map fst (run_ops (replicate (length (queue s')) Take_earliest) (queue s')))
        = add_mset ev (mset (queue s))
    \<and> (\<forall>x \<in> set (queue s). \<forall>y \<in> set (queue s). converted_at x < converted_at y
           \<longrightarrow> comes_before (drain (queue s)) x y \<and> comes_before (drain (queue s')) x y)
    \<and> (\<forall>x \<in> set (queue s). converted_at x < converted_at ev
           \<longrightarrow> comes_before (drain (queue s')) x ev)"
proof -
  have q': "queue s' = heappush (queue s) ev"
    and rest: "conversion_event s' = None" "convert_conn s' = convert_conn s"
    using ev wait s' by (simp_all add: step.simps convert_check_def PriorityQueue_put_def)
  have ms: "mset (queue s') = add_mset ev (mset (queue s))"
    by (simp add: q' heappush_mset)
  have keep: "queue s' ! i = queue s ! i"
    if "i < length (queue s)" "converted_at (queue s ! i) \<le> converted_at ev" for i
    using that by (simp add: q' heappush_keeps)
  have h: "is_heap (queue s)"
    by (simp add: s run_simulation_heap)
  have h': "is_heap (queue s')"
    unfolding q' by (intro heappush_heap) (rule h)
  have next_take: "\<exists>e q. PriorityQueue_get (queue s') = Some (Inr (e, q))
                    \<and> converted_at e < converted_at ev \<and> ev \<in> set q"
    if x: "x \<in> set (queue s)" "converted_at x < converted_at ev" for x
  proof -
    have "queue s' \<noteq> []" using ms by auto
    then have g: "PriorityQueue_get (queue s') = Some (heappop (queue s'))"
      by (simp add: PriorityQueue_get_def)
    then obtain q where pop: "heappop (queue s') = Inr (queue s' ! 0, q)"
      and msq: "mset (queue s') = add_mset (queue s' ! 0) (mset q)"
      using get_heap[OF h' g] by blast
    have "x \<in># mset (queue s')" using x(1) ms by simp
    then have "x \<in> set (queue s')" by simp
    then obtain i where "i < length (queue s')" "queue s' ! i = x"
      by (auto simp: in_set_conv_nth)
    then have le: "converted_at (queue s' ! 0) \<le> converted_at x"
      using heap_root_min[OF h', of i] by simp
    then have lt: "converted_at (queue s' ! 0) < converted_at ev" using x(2) by simp
    then have "queue s' ! 0 \<noteq> ev" by auto
    moreover have "ev \<in># mset (queue s')" using ms by simp
    ultimately have "ev \<in># mset q" using msq by simp
    then show ?thesis using g pop lt by simp
  qed
  have drain: "sorted (map converted_at
          (map fst (run_ops (replicate (length (queue s')) Take_earliest) (queue s'))))
    \<and> mset (map fst (run_ops (replicate (length (queue s')) Take_earliest) (queue s')))
        = add_mset ev (mset (queue s))"
    using drain_sorted[OF h', of "length (queue s')"] ms by simp
  have set_d: "set (drain (queue s)) = set (queue s)"
    using drain_heap(2)[OF h] by (rule mset_eq_setD)
  have "mset (drain (queue s')) = add_mset ev (mset (queue s))"
    using drain_heap(2)[OF h'] ms by simp
  then have "set_mset (mset (drain (queue s'))) = set_mset (add_mset ev (mset (queue s)))"
    by simp
  then have set_d': "set (drain (queue s')) = insert ev (set (queue s))"
    by simp
  have order: "comes_before (drain (queue s)) x y \<and> comes_before (drain (queue s')) x y"
    if "x \<in> set (queue s)" "y \<in> set (queue s)" "converted_at x < converted_at y" for x y
    using that sorted_comes_before[OF drain_heap(1)[OF h], of x y]
      sorted_comes_before[OF drain_heap(1)[OF h'], of x y]
    by (simp add: set_d set_d')
  have last: "comes_before (drain (queue s')) x ev"
    if "x \<in> set (queue s)" "converted_at x < converted_at ev" for x
    using that sorted_comes_before[OF drain_heap(1)[OF h'], of x ev]
    by (simp add: set_d')
  show ?thesis using ms rest keep next_take drain order last by blast
qed

text \<open>
  \<open>convert\<close> holds the event of lead 7, due at 115, while the events of the leads 12,
  13 and 14 are put on the queue, due at 101, 109 and 109. Checked at 110, the event of
  lead 7 goes back on the queue: the event of lead 12 stays at the root and is returned
  before that of lead 13, and the event of lead 14 is returned before that of lead 7.
\<close>

theorem requeue_preserves_content_and_order_witness:
  "conversion_event (run_simulation swap_schedule) = Some (sample_event 115 7 1005)
   \<and> queue (run_simulation swap_schedule)
       = [sample_event 101 12 1005, sample_event 109 13 1005, sample_event 109 14 1005]
   \<and> converted_at (sample_event 115 7 1005) - 110 > PERIOD
   \<and> mset (queue (step (Convert 110) (run_simulation swap_schedule)))
       = {#sample_event 115 7 1005, sample_event 101 12 1005, sample_event 109 13 1005,
           sample_event 109 14 1005#}
   \<and> queue (step (Convert 110) (run_simulation swap_schedule)) ! 0 = sample_event 101 12 1005
   \<and> comes_before (drain (queue (run_simulation swap_schedule)))
         (sample_event 101 12 1005) (sample_event 109 13 1005)
   \<and> comes_before (drain (queue (step (Convert 110) (run_simulation swap_schedule))))
         (sample_event 101 12 1005) (sample_event 109 13 1005)
   \<and> comes_before (drain (queue (step (Convert 110) (run_simulation swap_schedule))))
         (sample_event 109 14 1005) (sample_event 115 7 1005)"
proof -
  let ?s = "run_simulation swap_schedule"
  let ?e7 = "sample_event 115 7 1005"
  let ?e12 = "sample_event 101 12 1005"
  let ?e13 = "sample_event 109 13 1005"
  let ?e14 = "sample_event 109 14 1005"
  note ce = swap_schedule_state(2) and cr = swap_schedule_state(3)
    and q = swap_schedule_state(1)
  have gt: "converted_at ?e7 - 110 > PERIOD"
    by (simp add: sample_event_def PERIOD_def)
  note th = requeue_preserves_content_and_order [OF refl ce cr gt refl]
  have "mset (queue (step (Convert 110) ?s)) = add_mset ?e7 (mset (queue ?s))"
    using th by (rule conjunct1)
  then have ms: "mset (queue (step (Convert 110) ?s)) = {#?e7, ?e12, ?e13, ?e14#}"
    unfolding q by simp
  have "\<forall>i < length (queue ?s). converted_at (queue ?s ! i) \<le> converted_at ?e7
          \<longrightarrow> queue (step (Convert 110) ?s) ! i = queue ?s ! i"
    using th by blast
  then have "0 < length (queue ?s) \<longrightarrow> converted_at (queue ?s ! 0) \<le> converted_at ?e7
          \<longrightarrow> queue (step (Convert 110) ?s) ! 0 = queue ?s ! 0"
    by blast
  then have k: "queue (step (Convert 110) ?s) ! 0 = ?e12"
    unfolding q by (simp add: sample_event_def)
  have mem: "?e12 \<in> set (queue ?s)" "?e13 \<in> set (queue ?s)" "?e14 \<in> set (queue ?s)"
    unfolding q by simp_all
  have lt: "converted_at ?e12 < converted_at ?e13" "converted_at ?e14 < converted_at ?e7"
    by (simp_all add: sample_event_def)
  have "\<forall>x \<in> set (queue ?s). \<forall>y \<in> set (queue ?s). converted_at x < converted_at y
           \<longrightarrow> comes_before (drain (queue ?s)) x y
               \<and> comes_before (drain (queue (step (Convert 110) ?s))) x y"
    using th by blast
  then have o1: "comes_before (drain (queue ?s)) ?e12 ?e13
      \<and> comes_before (drain (queue (step (Convert 110) ?s))) ?e12 ?e13"
    using mem(1,2) lt(1) by blast
  have "\<forall>x \<in> set (queue ?s). converted_at x < converted_at ?e7
           \<longrightarrow> comes_before (drain (queue (step (Convert 110) ?s))) x ?e7"
    using th by blast
  then have o2: "comes_before (drain (queue (step (Convert 110) ?s))) ?e14 ?e7"
    using mem(3) lt(2) by blast
  show ?thesis using ce q gt ms k o1 o2 by blast
qed

text \<open>
  The claim as stated (the relative order of the other pending events with strictly
  smaller timestamps is unaffected) fails in the same state. Taken off the queue as
  it is, the events come in the order 12, 13, 14. Once the event of lead 7 is put
  back, the queue returns them in the order 12, 14, 13: \<open>heappop\<close> moves the last item,
  now the event of lead 7, to the root and sifts the right child up when the two
  children compare as equal.
\<close>

theorem requeue_swaps_pending_events:
  "conversion_event (run_simulation swap_schedule) = Some (sample_event 115 7 1005)
   \<and> convert_raised (run_simulation swap_schedule) = None
   \<and> queue (run_simulation swap_schedule)
       = [sample_event 101 12 1005, sample_event 109 13 1005, sample_event 109 14 1005]
   \<and> converted_at (sample_event 115 7 1005) - 110 > PERIOD
   \<and> converted_at (sample_event 109 13 1005) < converted_at (sample_event 115 7 1005)
   \<and> converted_at (sample_event 109 14 1005) < converted_at (sample_event 115 7 1005)
   \<and> drain (queue (run_simulation swap_schedule))
       = [sample_event 101 12 1005, sample_event 109 13 1005, sample_event 109 14 1005]
   \<and> queue (step (Convert 110) (run_simulation swap_schedule))
       = [sample_event 101 12 1005, sample_event 109 13 1005, sample_event 109 14 1005,
          sample_event 115 7 1005]
   \<and> drain (queue (step (Convert 110) (run_simulation swap_schedule)))
       = [sample_event 101 12 1005, sample_event 109 14 1005, sample_event 109 13 1005,
          sample_event 115 7 1005]"
proof -
  let ?s = "run_simulation swap_schedule"
  have gt: "converted_at (sample_event 115 7 1005) - 110 > PERIOD"
    by (simp add: sample_event_def PERIOD_def)
  have lt: "converted_at (sample_event 109 13 1005) < converted_at (sample_event 115 7 1005)"
    "converted_at (sample_event 109 14 1005) < converted_at (sample_event 115 7 1005)"
    by (simp_all add: sample_event_def)
  have before: "drain (queue ?s)
       = [sample_event 101 12 1005, sample_event 109 13 1005, sample_event 109 14 1005]"
    unfolding swap_schedule_state drain_def by (simp add: queue_eval)
  have "queue (step (Convert 110) ?s)
      = PriorityQueue_put (queue ?s) (sample_event 115 7 1005)"
    using gt by (simp add: step.simps swap_schedule_state convert_check_def)
  then have q: "queue (step (Convert 110) ?s)
       = [sample_event 101 12 1005, sample_event 109 13 1005, sample_event 109 14 1005,
          sample_event 115 7 1005]"
    unfolding swap_schedule_state by (simp add: queue_eval)
  have after: "drain (queue (step (Convert 110) ?s))
       = [sample_event 101 12 1005, sample_event 109 14 1005, sample_event 109 13 1005,
          sample_event 115 7 1005]"
    unfolding q drain_def by (simp add: queue_eval)
  show ?thesis
    using swap_schedule_state gt lt before q after by blast
qed

text \<open>
  Claim C6. The experiment bucket is a function of the lead identifier alone: control
  when the identifier modulo 10 is at most 1, experiment otherwise. Of the identifiers
  0 to 19 exactly 0, 1, 10 and 11 are in control and the sixteen others in experiment.
  It is the bucket \<open>create_lead\<close> publishes for a lead with that identifier.
\<close>

theorem experiment_bucket_rule:
  "experiment_bucket i = (if i mod 10 \<le> 1 then ''control'' else ''experiment'')
   \<and> filter (\<lambda>i. experiment_bucket i = ''control'') [0..19] = [0, 1, 10, 11]
   \<and> filter (\<lambda>i. experiment_bucket i = ''experiment'') [0..19]
       = [2, 3, 4, 5, 6, 7, 8, 9, 12, 13, 14, 15, 16, 17, 18, 19]
   \<and> (in_fetchone inp = Some (Some i) \<longrightarrow>
        p_experiment_bucket (last (snd (snd (snd (create_lead inp c q p))))) = experiment_bucket i)"
proof -
  have 1: "filter (\<lambda>i. experiment_bucket i = ''control'') [0..19] = [0, 1, 10, 11]"
    by (simp add: experiment_bucket_def upto.simps)
  have 2: "filter (\<lambda>i. experiment_bucket i = ''experiment'') [0..19]
       = [2, 3, 4, 5, 6, 7, 8, 9, 12, 13, 14, 15, 16, 17, 18, 19]"
    by (simp add: experiment_bucket_def upto.simps)
  have 3: "p_experiment_bucket (last (snd (snd (snd (create_lead inp c q p))))) = experiment_bucket i"
    if "in_fetchone inp = Some (Some i)"
    by (simp add: create_lead_row[OF that])
  show ?thesis using 1 2 3 by (simp add: experiment_bucket_def)
qed

theorem experiment_bucket_rule_witness:
  "experiment_bucket 11 = ''control'' \<and> experiment_bucket 12 = ''experiment''
   \<and> p_experiment_bucket (last (snd (snd (snd
        (create_lead (sample_inputs (Some (Some 12)) half 0 100) [] [] [])))))
      = ''experiment''"
proof -
  have f: "in_fetchone (sample_inputs (Some (Some 12)) half 0 100) = Some (Some 12)"
    by (simp add: sample_inputs_def)
  have 1: "experiment_bucket 11 = ''control''"
    using experiment_bucket_rule [of 11] by simp
  have 2: "experiment_bucket 12 = ''experiment''"
    using experiment_bucket_rule [of 12] by simp
  have "p_experiment_bucket (last (snd (snd (snd
        (create_lead (sample_inputs (Some (Some 12)) half 0 100) [] [] [])))))
      = experiment_bucket 12"
    using experiment_bucket_rule [of 12 "sample_inputs (Some (Some 12)) half 0 100" "[]" "[]" "[]"] f
    by blast
  then show ?thesis using 1 2 by simp
qed

text \<open>
  Claim C7. In a round of \<open>create_lead\<close> whose insert returned the identifier \<open>i\<close>, the
  score lies in \<open>[0, 1)\<close>, the label published is 1 when the score exceeds 0.5 and 0
  otherwise, and a coupon is written (one \<open>Insert_coupon\<close> statement for \<open>i\<close>, after the
  insert of the lead) exactly when the label is 0 and the bucket of \<open>i\<close> is experiment.
  Its amount is the value of \<open>random.randint(500, 5000)\<close>: an integer from 500 to 5000,
  and every such integer can occur. How likely each amount is (the uniform distribution
  of the generator) is not part of the model.
\<close>

theorem coupon_issued_iff:
  assumes "in_fetchone inp = Some (Some i)"
    and "create_lead inp c q p = (r, c', q', p')"
    and "ld = rand_lead (in_local_part inp) (in_domain inp) (in_medium inp) (in_source inp)"
    and "score = random_float (in_score inp)"
    and "label = (if score > 0.5 then 1 else 0)"
    and "amount = randint 500 5000 (in_coupon_amount inp)"
  shows "r = None
    \<and> 0 \<le> score \<and> score < 1
    \<and> p' = p @ [\<lparr>p_lead_id = Some i, p_experiment_bucket = experiment_bucket i,
                   p_score = score, p_label = label, p_predicted_at = in_predicted_at inp\<rparr>]
    \<and> c' = c @ [Insert_lead (email ld) (utm_medium ld) (utm_source ld)]
             @ (if label = 0 \<and> experiment_bucket i = ''experiment''
                then [Insert_coupon (Some i) amount] else [])
    \<and> 500 \<le> amount \<and> amount \<le> 5000
    \<and> (\<forall>a. 500 \<le> a \<and> a \<le> 5000 \<longrightarrow> (\<exists>n. randint 500 5000 n = a))"
proof -
  have eb: "experiment_bucket i \<noteq> ''control'' \<longleftrightarrow> experiment_bucket i = ''experiment''"
    by (simp add: experiment_bucket_def)
  have lab: "label = 0 \<longleftrightarrow> \<not> score > 0.5" by (simp add: assms(5))
  have cs: "coupon_sent inp i \<longleftrightarrow> label = 0 \<and> experiment_bucket i = ''experiment''"
    unfolding coupon_sent_def lead_score_def lab eb assms(4) ..
  have res: "r = None"
    "p' = p @ [\<lparr>p_lead_id = Some i, p_experiment_bucket = experiment_bucket i,
                   p_score = score, p_label = label, p_predicted_at = in_predicted_at inp\<rparr>]"
    "c' = c @ [Insert_lead (email ld) (utm_medium ld) (utm_source ld)]
             @ (if label = 0 \<and> experiment_bucket i = ''experiment''
                then [Insert_coupon (Some i) amount] else [])"
    using assms(2) unfolding create_lead_row[OF assms(1)] cs
    by (auto simp add: lead_score_def assms(3-6) persisted_lead_def)
  have rng: "500 \<le> amount \<and> amount \<le> 5000"
    unfolding assms(6) by (rule randint_range) simp
  have onto: "\<exists>n. randint 500 5000 n = a" if "500 \<le> a \<and> a \<le> 5000" for a
    using randint_onto[of 500 a 5000] that by blast
  show ?thesis
    using res rng onto random_float_range[of "in_score inp"] assms(4) by blast
qed

theorem coupon_issued_iff_witness:
  "in_fetchone (sample_inputs (Some (Some 7)) half 0 100) = Some (Some 7)
   \<and> create_lead (sample_inputs (Some (Some 7)) half 0 100) [] [] [] =
       (None,
        [Insert_lead ''abcd@xyz.com'' ''email'' ''klaviyo.com'', Insert_coupon (Some 7) 507],
        [sample_event 115 7 1005],
        [\<lparr>p_lead_id = Some 7, p_experiment_bucket = ''experiment'', p_score = 0.5,
           p_label = 0, p_predicted_at = 100\<rparr>])
   \<and> (500::int) \<le> 507 \<and> (507::int) \<le> 5000"
proof -
  let ?inp = "sample_inputs (Some (Some 7)) half 0 100"
  have f: "in_fetchone ?inp = Some (Some 7)"
    by (simp add: sample_inputs_def)
  have cl: "create_lead ?inp [] [] [] =
       (None,
        [Insert_lead ''abcd@xyz.com'' ''email'' ''klaviyo.com'', Insert_coupon (Some 7) 507],
        [sample_event 115 7 1005],
        [\<lparr>p_lead_id = Some 7, p_experiment_bucket = ''experiment'', p_score = 0.5,
           p_label = 0, p_predicted_at = 100\<rparr>])"
    by (simp add: sample_create_lead PriorityQueue_put_def heappush_def siftdown_def
        siftdown_loop_unfold)
  have am: "randint 500 5000 (in_coupon_amount ?inp) = 507"
    by (simp add: sample_inputs_def randint_def)
  have "500 \<le> randint 500 5000 (in_coupon_amount ?inp)
      \<and> randint 500 5000 (in_coupon_amount ?inp) \<le> 5000"
    using coupon_issued_iff [OF f cl refl refl refl refl] by blast
  then show ?thesis
    unfolding am using f cl by blast
qed

text \<open>
  Claim C8, as amended. In a round of \<open>create_lead\<close> whose insert returned the
  identifier \<open>i\<close>, the lead converts exactly when the first flip is below the score,
  or a coupon was written in this round, the first flip is not below the score and
  the second flip is. When it converts, the event with the timestamp
  \<open>time.time() + random.random() * 30\<close>, the lead with its identifier, and the amount
  \<open>random.randint(1000, 25000)\<close> (from 1000 to 25000) is put on the queue: the queue
  holds what it held plus that event. The timestamp is computed in double precision.
  For a clock value that is a double and not negative it is at least the clock value
  and at most the double nearest to the clock value plus 30, an end it can reach. When
  the lead does not convert, the queue is unchanged.
\<close>

theorem conversion_decision_and_enqueue:
  assumes "in_fetchone inp = Some (Some i)"
    and "create_lead inp c q p = (r, c', q', p')"
    and "score = random_float (in_score inp)"
    and "coupon \<longleftrightarrow> (\<exists>a. Insert_coupon (Some i) a \<in> set (drop (length c) c'))"
    and "converts \<longleftrightarrow>
           random_float (in_flip1 inp) < score
           \<or> (coupon \<and> \<not> random_float (in_flip1 inp) < score
                \<and> random_float (in_flip2 inp) < score)"
    and "ev = \<lparr>converted_at =
                 float_add (in_time inp) (float_mul (random_float (in_delay inp)) 30),
               lead = (rand_lead (in_local_part inp) (in_domain inp) (in_medium inp)
                         (in_source inp))\<lparr>lead_id := Some i\<rparr>,
               conversion_amount = randint 1000 25000 (in_conversion_amount inp)\<rparr>"
    and "0 \<le> in_time inp" "round_double (in_time inp) = in_time inp"
  shows "q' = (if converts then PriorityQueue_put q ev else q)
    \<and> (converts \<longrightarrow> mset q' = add_mset ev (mset q))
    \<and> in_time inp \<le> converted_at ev
    \<and> converted_at ev \<le> round_double (in_time inp + 30)
    \<and> 1000 \<le> conversion_amount ev \<and> conversion_amount ev \<le> 25000"
proof -
  have ev: "ev = scheduled_event inp i"
    by (simp add: assms(6) scheduled_event_def persisted_lead_def)
  have c': "c' = (if coupon_sent inp i
       then c @ [Insert_lead (email (persisted_lead inp i)) (utm_medium (persisted_lead inp i))
                   (utm_source (persisted_lead inp i)),
                 Insert_coupon (Some i) (randint 500 5000 (in_coupon_amount inp))]
       else c @ [Insert_lead (email (persisted_lead inp i)) (utm_medium (persisted_lead inp i))
                   (utm_source (persisted_lead inp i))])"
    and q': "q' = (if lead_converts inp i then PriorityQueue_put q (scheduled_event inp i) else q)"
    using assms(2) unfolding create_lead_row[OF assms(1)] by simp_all
  have coupon: "coupon \<longleftrightarrow> coupon_sent inp i"
    unfolding assms(4) c' by simp
  have conv: "converts \<longleftrightarrow> lead_converts inp i"
    unfolding assms(5) coupon lead_converts_def lead_score_def assms(3) by auto
  have q: "q' = (if converts then PriorityQueue_put q ev else q)"
    unfolding q' conv ev ..
  then have ms: "mset q' = add_mset ev (mset q)" if converts
    using that by (simp add: PriorityQueue_put_def heappush_mset)
  define delay where "delay = float_mul (random_float (in_delay inp)) 30"
  have r: "0 \<le> random_float (in_delay inp) * 30" "random_float (in_delay inp) * 30 \<le> 30"
    using random_float_range[of "in_delay inp"] by simp_all
  have d0: "0 \<le> delay"
    unfolding delay_def float_mul_def by (rule round_double_nonneg[OF r(1)])
  have "delay \<le> round_double 30"
    unfolding delay_def float_mul_def by (rule round_double_mono[OF r])
  then have d30: "delay \<le> 30" by simp
  have "round_double (in_time inp) \<le> round_double (in_time inp + delay)"
    using assms(7) d0 by (intro round_double_mono) simp_all
  then have lo: "in_time inp \<le> converted_at ev"
    by (simp add: assms(6,8) float_add_def delay_def)
  have "round_double (in_time inp + delay) \<le> round_double (in_time inp + 30)"
    using assms(7) d0 d30 by (intro round_double_mono) simp_all
  then have hi: "converted_at ev \<le> round_double (in_time inp + 30)"
    by (simp add: assms(6) float_add_def delay_def)
  have a: "1000 \<le> conversion_amount ev \<and> conversion_amount ev \<le> 25000"
    using randint_range[of 1000 25000 "in_conversion_amount inp"] by (simp add: assms(6))
  show ?thesis using q ms lo hi a by blast
qed

text \<open>
  Lead 7 is created at the clock value 100 with the draw 0.5 for the delay: a coupon
  is written, the second flip succeeds, and the event due at 115 is put on the queue.
\<close>

theorem conversion_decision_and_enqueue_witness:
  "in_fetchone (sample_inputs (Some (Some 7)) half 0 100) = Some (Some 7)
   \<and> create_lead (sample_inputs (Some (Some 7)) half 0 100) [] [] [] =
       (None,
        [Insert_lead ''abcd@xyz.com'' ''email'' ''klaviyo.com'', Insert_coupon (Some 7) 507],
        [sample_event 115 7 1005],
        [\<lparr>p_lead_id = Some 7, p_experiment_bucket = ''experiment'', p_score = 0.5,
           p_label = 0, p_predicted_at = 100\<rparr>])
   \<and> 0 \<le> in_time (sample_inputs (Some (Some 7)) half 0 100)
   \<and> round_double (in_time (sample_inputs (Some (Some 7)) half 0 100))
       = in_time (sample_inputs (Some (Some 7)) half 0 100)
   \<and> [sample_event 115 7 1005] = PriorityQueue_put [] (sample_event 115 7 1005)
   \<and> mset [sample_event 115 7 1005] = add_mset (sample_event 115 7 1005) (mset [])
   \<and> in_time (sample_inputs (Some (Some 7)) half 0 100) \<le> converted_at (sample_event 115 7 1005)
   \<and> converted_at (sample_event 115 7 1005) \<le> 130
   \<and> conversion_amount (sample_event 115 7 1005) \<le> 25000"
proof -
  let ?inp = "sample_inputs (Some (Some 7)) half 0 100"
  have f: "in_fetchone ?inp = Some (Some 7)" by (simp add: sample_inputs_def)
  have cl: "create_lead ?inp [] [] [] =
       (None,
        [Insert_lead ''abcd@xyz.com'' ''email'' ''klaviyo.com'', Insert_coupon (Some 7) 507],
        [sample_event 115 7 1005],
        [\<lparr>p_lead_id = Some 7, p_experiment_bucket = ''experiment'', p_score = 0.5,
           p_label = 0, p_predicted_at = 100\<rparr>])"
    by (simp add: sample_create_lead queue_eval)
  have t: "in_time ?inp = 100" by (simp add: sample_inputs_def)
  have t0: "0 \<le> in_time ?inp" unfolding t by simp
  have tr: "round_double (in_time ?inp) = in_time ?inp" unfolding t by simp
  have coupon: "True \<longleftrightarrow> (\<exists>a. Insert_coupon (Some 7) a \<in> set (drop (length ([]::connection))
        [Insert_lead ''abcd@xyz.com'' ''email'' ''klaviyo.com'', Insert_coupon (Some 7) 507]))"
    by simp
  have conv: "True \<longleftrightarrow>
           random_float (in_flip1 ?inp) < random_float (in_score ?inp)
           \<or> (True \<and> \<not> random_float (in_flip1 ?inp) < random_float (in_score ?inp)
                \<and> random_float (in_flip2 ?inp) < random_float (in_score ?inp))"
    by (simp add: sample_inputs_def)
  have ev: "sample_event 115 7 1005 =
      \<lparr>converted_at = float_add (in_time ?inp) (float_mul (random_float (in_delay ?inp)) 30),
       lead = (rand_lead (in_local_part ?inp) (in_domain ?inp) (in_medium ?inp)
                 (in_source ?inp))\<lparr>lead_id := Some 7\<rparr>,
       conversion_amount = randint 1000 25000 (in_conversion_amount ?inp)\<rparr>"
    by (simp add: sample_event_def sample_inputs_def rand_lead_def choice_def
        medium_to_sources_def randint_def float_add_def float_mul_def)
  note th = conversion_decision_and_enqueue [OF f cl refl coupon conv ev t0 tr]
  have 1: "[sample_event 115 7 1005] = PriorityQueue_put [] (sample_event 115 7 1005)"
    using th [THEN conjunct1] by simp
  have 2: "mset [sample_event 115 7 1005] = add_mset (sample_event 115 7 1005) (mset [])"
    using th [THEN conjunct2, THEN conjunct1] by simp
  have 3: "in_time ?inp \<le> converted_at (sample_event 115 7 1005)"
    using th [THEN conjunct2, THEN conjunct2, THEN conjunct1] .
  have "converted_at (sample_event 115 7 1005) \<le> round_double (in_time ?inp + 30)"
    using th [THEN conjunct2, THEN conjunct2, THEN conjunct2, THEN conjunct1] .
  then have 4: "converted_at (sample_event 115 7 1005) \<le> 130"
    unfolding t by simp
  have 5: "conversion_amount (sample_event 115 7 1005) \<le> 25000"
    using th by blast
  show ?thesis using f cl t0 tr 1 2 3 4 5 by blast
qed

text \<open>
  The claim as stated (the fire timestamp lies in \<open>[now, now + 30)\<close>) fails. At the
  clock value 1700000000 and with the draw \<open>1 - 2\<^sup>-\<^sup>2\<^sup>9\<close> for the delay, the product
  is \<open>30 - 30 * 2\<^sup>-\<^sup>2\<^sup>9\<close>; doubles of the size of the sum are \<open>2\<^sup>-\<^sup>2\<^sup>2\<close> apart, and the
  sum is rounded to 1700000030, the clock value plus 30.
\<close>

theorem fire_timestamp_reaches_upper_end:
  "create_lead late_inputs [] [] [] =
     (None,
      [Insert_lead ''abcd@xyz.com'' ''email'' ''klaviyo.com'', Insert_coupon (Some 7) 507],
      [sample_event 1700000030 7 1005],
      [\<lparr>p_lead_id = Some 7, p_experiment_bucket = ''experiment'', p_score = 0.5,
         p_label = 0, p_predicted_at = 1700000000\<rparr>])
   \<and> in_time late_inputs = 1700000000
   \<and> random_float (in_delay late_inputs) < 1
   \<and> \<not> converted_at (sample_event 1700000030 7 1005) < in_time late_inputs + 30"
proof -
  have "in_time late_inputs = 1700000000"
    by (simp add: late_inputs_def sample_inputs_def)
  moreover have "random_float (in_delay late_inputs) < 1"
    by (rule random_float_range)
  moreover have "\<not> converted_at (sample_event 1700000030 7 1005) < in_time late_inputs + 30"
    by (simp add: sample_event_def late_inputs_def sample_inputs_def)
  ultimately show ?thesis using late_create_lead by blast
qed

text \<open>
  Claim C9. The order on \<open>ConversionEvent\<close> looks at the fire timestamp only: an event
  is less than another exactly when its \<open>converted_at\<close> is strictly smaller, whatever
  leads and conversion amounts the two events carry; two events with the same timestamp
  are not less than each other in either direction.
\<close>

theorem lt_depends_on_timestamp_only:
  "ConversionEvent_lt e1 e2 = (converted_at e1 < converted_at e2)
   \<and> ConversionEvent_lt (e1\<lparr>lead := l1, conversion_amount := a1\<rparr>)
        (e2\<lparr>lead := l2, conversion_amount := a2\<rparr>) = ConversionEvent_lt e1 e2
   \<and> (converted_at e1 = converted_at e2
        \<longrightarrow> \<not> ConversionEvent_lt e1 e2 \<and> \<not> ConversionEvent_lt e2 e1)"
  by (simp add: ConversionEvent_lt_def)

theorem lt_depends_on_timestamp_only_witness:
  "\<not> ConversionEvent_lt
       \<lparr>converted_at = 5, lead = \<lparr>email = ''a@b.com'', utm_medium = ''email'',
          utm_source = ''klaviyo.com'', lead_id = Some 1\<rparr>, conversion_amount = 1000\<rparr>
       \<lparr>converted_at = 5, lead = \<lparr>email = ''c@d.com'', utm_medium = ''social'',
          utm_source = ''twitter.com'', lead_id = Some 2\<rparr>, conversion_amount = 2500\<rparr>
   \<and> ConversionEvent_lt
       \<lparr>converted_at = 5, lead = \<lparr>email = ''a@b.com'', utm_medium = ''email'',
          utm_source = ''klaviyo.com'', lead_id = Some 1\<rparr>, conversion_amount = 1000\<rparr>
       \<lparr>converted_at = 7, lead = \<lparr>email = ''c@d.com'', utm_medium = ''social'',
          utm_source = ''twitter.com'', lead_id = Some 2\<rparr>, conversion_amount = 2500\<rparr>"
  using lt_depends_on_timestamp_only
    [of "\<lparr>converted_at = 5, lead = \<lparr>email = ''a@b.com'', utm_medium = ''email'',
          utm_source = ''klaviyo.com'', lead_id = Some 1\<rparr>, conversion_amount = 1000\<rparr>"
        "\<lparr>converted_at = 5, lead = \<lparr>email = ''c@d.com'', utm_medium = ''social'',
          utm_source = ''twitter.com'', lead_id = Some 2\<rparr>, conversion_amount = 2500\<rparr>"]
    lt_depends_on_timestamp_only
    [of "\<lparr>converted_at = 5, lead = \<lparr>email = ''a@b.com'', utm_medium = ''email'',
          utm_source = ''klaviyo.com'', lead_id = Some 1\<rparr>, conversion_amount = 1000\<rparr>"
        "\<lparr>converted_at = 7, lead = \<lparr>email = ''c@d.com'', utm_medium = ''social'',
          utm_source = ''twitter.com'', lead_id = Some 2\<rparr>, conversion_amount = 2500\<rparr>"]
  by simp

text \<open>
  Claim C10. Every event the producer puts on the queue carries a lead with an
  identifier. For one call of \<open>create_lead\<close>: without a row the call raises
  \<open>RuntimeError\<close> and leaves the queue as it is; whenever the call changes the queue,
  the insert returned a row with an identifier \<open>i\<close>, the call did not raise, and every
  event it added has the lead identifier \<open>i\<close>. For the running program: under every
  schedule, every event in the queue and the event \<open>convert\<close> holds have a lead
  identifier.
\<close>

theorem enqueued_events_have_lead_id:
  assumes "create_lead inp c q p = (r, c', q', p')"
  shows "(in_fetchone inp = None \<longrightarrow> r = Some RuntimeError \<and> q' = q)
    \<and> (q' \<noteq> q \<longrightarrow> (\<exists>i. in_fetchone inp = Some (Some i) \<and> r = None
                       \<and> (\<forall>e \<in># mset q' - mset q. lead_id (lead e) = Some i)))
    \<and> (\<forall>e \<in> set (queue (run_simulation sched)). lead_id (lead e) \<noteq> None)
    \<and> (\<forall>e. conversion_event (run_simulation sched) = Some e \<longrightarrow> lead_id (lead e) \<noteq> None)"
proof -
  have 1: "r = Some RuntimeError \<and> q' = q" if "in_fetchone inp = None"
    using assms create_lead_no_row[OF that, of c q p] by simp
  have 2: "\<exists>i. in_fetchone inp = Some (Some i) \<and> r = None
              \<and> (\<forall>e \<in># mset q' - mset q. lead_id (lead e) = Some i)" if neq: "q' \<noteq> q"
  proof -
    obtain i where i: "in_fetchone inp = Some (Some i)" "r = None"
      "q' = PriorityQueue_put q (scheduled_event inp i)"
      using create_lead_queue[OF assms] neq by blast
    have "mset q' - mset q = {#scheduled_event inp i#}"
      by (simp add: i(3) PriorityQueue_put_def heappush_mset)
    then show ?thesis using i(1,2) by (auto simp: scheduled_event_id)
  qed
  show ?thesis
    using 1 2 run_simulation_ids[of sched] unfolding ids_set_def by blast
qed

theorem enqueued_events_have_lead_id_witness:
  "create_lead (sample_inputs (Some (Some 7)) half 0 100) [] [] [] =
       (None,
        [Insert_lead ''abcd@xyz.com'' ''email'' ''klaviyo.com'', Insert_coupon (Some 7) 507],
        [sample_event 115 7 1005],
        [\<lparr>p_lead_id = Some 7, p_experiment_bucket = ''experiment'', p_score = 0.5,
           p_label = 0, p_predicted_at = 100\<rparr>])
   \<and> conversion_event
        (run_simulation [Main (sample_inputs (Some (Some 7)) half 0 100), Convert 0])
       = Some (sample_event 115 7 1005)
   \<and> lead_id (lead (sample_event 115 7 1005)) \<noteq> None"
proof -
  let ?inp = "sample_inputs (Some (Some 7)) half 0 100"
  have cl: "create_lead ?inp [] [] [] =
       (None,
        [Insert_lead ''abcd@xyz.com'' ''email'' ''klaviyo.com'', Insert_coupon (Some 7) 507],
        [sample_event 115 7 1005],
        [\<lparr>p_lead_id = Some 7, p_experiment_bucket = ''experiment'', p_score = 0.5,
           p_label = 0, p_predicted_at = 100\<rparr>])"
    by (simp add: sample_create_lead PriorityQueue_put_def heappush_def siftdown_def
        siftdown_loop_unfold)
  have ce: "conversion_event (run_simulation [Main ?inp, Convert 0])
       = Some (sample_event 115 7 1005)"
    unfolding one_lead_taken by (simp add: initial_def)
  have "\<forall>e. conversion_event (run_simulation [Main ?inp, Convert 0]) = Some e
          \<longrightarrow> lead_id (lead e) \<noteq> None"
    using enqueued_events_have_lead_id [OF cl, of "[Main ?inp, Convert 0]"] by blast
  then have "lead_id (lead (sample_event 115 7 1005)) \<noteq> None"
    using ce by blast
  then show ?thesis using cl ce by blast
qed

end
